theory Spec2Isabelle
  imports Complex_Main "HOL-Library.Log_Nat"
begin

section \<open>Data model\<close>

text \<open>
  The program is \<^verbatim>\<open>src/main.py\<close>. Place identifiers are Python integers (\<open>int\<close>).
  Strings are \<open>string\<close>, read as lists of code points below 256. A Python \<^verbatim>\<open>dict\<close>
  is a map.
\<close>

subsection \<open>Python floats\<close>

text \<open>
  A Python \<^verbatim>\<open>float\<close> is an IEEE 754 binary64 number: a finite value, an infinity or
  NaN. The two zeros are not told apart (they compare equal, and no operation used here
  separates them).
\<close>

datatype pyfloat = Fin real | PInf | NInf | NaN

text \<open>
  Rounding to the nearest double, ties to the even significand. With the value scaled by
  \<open>2 ^ 1074\<close>, so that the smallest subnormal is one unit, the doubles up to \<open>2 ^ 53\<close>
  units are the integers, and a magnitude of \<open>53 + e\<close> bits lies on the grid of spacing
  \<open>2 ^ e\<close> units. A rounded magnitude of \<open>2 ^ 1024\<close> or more overflows to an infinity.
\<close>

definition round_even :: "real \<Rightarrow> int" where
  "round_even r =
     (let f = \<lfloor>r\<rfloor> in
      if r - of_int f < 1 / 2 then f
      else if 1 / 2 < r - of_int f then f + 1
      else if even f then f else f + 1)"

definition ulp_exp :: "real \<Rightarrow> nat" where
  "ulp_exp x =
     (let n = \<lfloor>\<bar>x\<bar> * 2 ^ 1074\<rfloor> in if n < 2 ^ 53 then 0 else nat (bitlen n - 53))"

definition quantum :: "real \<Rightarrow> real" where
  "quantum x = 2 ^ ulp_exp x / 2 ^ 1074"

definition round_real :: "real \<Rightarrow> real" where
  "round_real x = of_int (round_even (x / quantum x)) * quantum x"

definition round_double :: "real \<Rightarrow> pyfloat" where
  "round_double x =
     (let r = round_real x in
      if 2 ^ 1024 \<le> r then PInf else if r \<le> - (2 ^ 1024) then NInf else Fin r)"

fun fadd :: "pyfloat \<Rightarrow> pyfloat \<Rightarrow> pyfloat" where
  "fadd NaN y = NaN"
| "fadd x NaN = NaN"
| "fadd PInf NInf = NaN"
| "fadd NInf PInf = NaN"
| "fadd PInf y = PInf"
| "fadd x PInf = PInf"
| "fadd NInf y = NInf"
| "fadd x NInf = NInf"
| "fadd (Fin x) (Fin y) = round_double (x + y)"

fun fless :: "pyfloat \<Rightarrow> pyfloat \<Rightarrow> bool" where
  "fless NaN y = False"
| "fless x NaN = False"
| "fless x NInf = False"
| "fless NInf y = True"
| "fless PInf y = False"
| "fless (Fin x) PInf = True"
| "fless (Fin x) (Fin y) = (x < y)"

fun feq :: "pyfloat \<Rightarrow> pyfloat \<Rightarrow> bool" where
  "feq NaN y = False"
| "feq x NaN = False"
| "feq x y = (x = y)"

text \<open>
  \<^verbatim>\<open>x >= 0\<close> for a weight: a finite non-negative number or the positive infinity,
  not NaN.
\<close>

definition nonneg_weight :: "pyfloat \<Rightarrow> bool" where
  "nonneg_weight w = (case w of Fin r \<Rightarrow> 0 \<le> r | PInf \<Rightarrow> True | _ \<Rightarrow> False)"

text \<open>\<^verbatim>\<open>x <= y\<close> on floats.\<close>

definition fle :: "pyfloat \<Rightarrow> pyfloat \<Rightarrow> bool" where
  "fle x y = (fless x y \<or> feq x y)"

subsection \<open>The graph\<close>

type_synonym edge = "int \<times> pyfloat \<times> string"

type_synonym AdjacencyList = "int \<rightharpoonup> edge list"

text \<open>\<^verbatim>\<open>graph.get(u, [])\<close>: a read with a default; the dictionary is not changed.\<close>

definition graph_get :: "AdjacencyList \<Rightarrow> int \<Rightarrow> edge list" where
  "graph_get graph u = (case graph u of None \<Rightarrow> [] | Some es \<Rightarrow> es)"

text \<open>
  The two exceptions the loaders raise. The messages are not modelled.
\<close>

datatype error = FileNotFoundError | ValueError

section \<open>Reading lines\<close>

text \<open>\<^verbatim>\<open>str.strip()\<close> and \<^verbatim>\<open>str.split(",", maxsplit=n)\<close>.\<close>

definition is_space :: "char \<Rightarrow> bool" where
  "is_space c = (c \<in> set [CHR '' '', CHR 0x09, CHR 0x0A, CHR 0x0B, CHR 0x0C, CHR 0x0D,
                           CHR 0x1C, CHR 0x1D, CHR 0x1E, CHR 0x1F, CHR 0x85, CHR 0xA0])"

definition strip :: "string \<Rightarrow> string" where
  "strip s = rev (dropWhile is_space (rev (dropWhile is_space s)))"

fun split_max :: "nat \<Rightarrow> string \<Rightarrow> string list" where
  "split_max 0 s = [s]"
| "split_max (Suc n) s =
     (if CHR '','' \<in> set s
      then takeWhile (\<lambda>c. c \<noteq> CHR '','') s # split_max n (tl (dropWhile (\<lambda>c. c \<noteq> CHR '','') s))
      else [s])"

text \<open>
  The built-ins \<^verbatim>\<open>int\<close> and \<^verbatim>\<open>float\<close> applied to a string are parameters of the
  loaders: \<open>None\<close> stands for the \<^verbatim>\<open>ValueError\<close> they raise. Every theorem about a loader
  holds for all such functions.
\<close>

type_synonym int_parser = "string \<Rightarrow> int option"

type_synonym float_parser = "string \<Rightarrow> pyfloat option"

section \<open>The place catalog loader\<close>

text \<open>
  \<^verbatim>\<open>load_places\<close>. The body of the loop up to the two insertions is \<open>parse_place_line\<close>:
  \<open>Inr None\<close> is the \<^verbatim>\<open>continue\<close> on a blank line, \<open>Inl\<close> a raised exception. The file is
  the list of its lines, or \<open>None\<close> when it does not exist.
\<close>

definition parse_place_line :: "int_parser \<Rightarrow> string \<Rightarrow> error + (int \<times> string) option" where
  "parse_place_line int_of raw_line =
     (let stripped = strip raw_line in
      if stripped = [] then Inr None
      else
        let parts = split_max 1 stripped in
        if length parts \<noteq> 2 then Inl ValueError
        else
          let place_id_str = strip (parts ! 0); place_name = strip (parts ! 1) in
          if place_id_str = [] then Inl ValueError
          else
            (case int_of place_id_str of
               None \<Rightarrow> Inl ValueError
             | Some place_id \<Rightarrow>
                 Inr (Some (place_id, if place_name = [] then ''null'' else place_name))))"

fun load_places_loop ::
  "int_parser \<Rightarrow> string list \<Rightarrow> (string \<rightharpoonup> int) \<Rightarrow> (int \<rightharpoonup> string) \<Rightarrow>
     error + ((string \<rightharpoonup> int) \<times> (int \<rightharpoonup> string))" where
  "load_places_loop int_of [] name_to_id id_to_name = Inr (name_to_id, id_to_name)"
| "load_places_loop int_of (raw_line # lines) name_to_id id_to_name =
     (case parse_place_line int_of raw_line of
        Inl e \<Rightarrow> Inl e
      | Inr None \<Rightarrow> load_places_loop int_of lines name_to_id id_to_name
      | Inr (Some (place_id, place_name)) \<Rightarrow>
          load_places_loop int_of lines
            (if name_to_id place_name = None then name_to_id(place_name \<mapsto> place_id) else name_to_id)
            (if id_to_name place_id = None then id_to_name(place_id \<mapsto> place_name) else id_to_name))"

definition load_places ::
  "int_parser \<Rightarrow> string list option \<Rightarrow> error + ((string \<rightharpoonup> int) \<times> (int \<rightharpoonup> string))" where
  "load_places int_of place_file =
     (case place_file of
        None \<Rightarrow> Inl FileNotFoundError
      | Some lines \<Rightarrow> load_places_loop int_of lines Map.empty Map.empty)"

section \<open>The road graph loader\<close>

text \<open>
  \<^verbatim>\<open>load_graph\<close>, in the same shape. \<open>setdefault_append\<close> is
  \<^verbatim>\<open>graph.setdefault(k, []).append(e)\<close>.
\<close>

definition parse_road_line ::
  "int_parser \<Rightarrow> float_parser \<Rightarrow> string \<Rightarrow> error + (int \<times> int \<times> pyfloat \<times> string) option" where
  "parse_road_line int_of float_of raw_line =
     (let stripped = strip raw_line in
      if stripped = [] then Inr None
      else
        let parts = split_max 3 stripped in
        if length parts \<noteq> 4 then Inl ValueError
        else
          let left_id_str = strip (parts ! 0); right_id_str = strip (parts ! 1);
              miles_str = strip (parts ! 2); description = strip (parts ! 3) in
          (case int_of left_id_str of
             None \<Rightarrow> Inl ValueError
           | Some left_id \<Rightarrow>
               (case int_of right_id_str of
                  None \<Rightarrow> Inl ValueError
                | Some right_id \<Rightarrow>
                    (case float_of miles_str of
                       None \<Rightarrow> Inl ValueError
                     | Some miles \<Rightarrow>
                         if fless miles (Fin 0) then Inl ValueError
                         else Inr (Some (left_id, right_id, miles, description))))))"

definition setdefault_append :: "AdjacencyList \<Rightarrow> int \<Rightarrow> edge \<Rightarrow> AdjacencyList" where
  "setdefault_append graph k e = graph(k \<mapsto> graph_get graph k @ [e])"

fun load_graph_loop ::
  "int_parser \<Rightarrow> float_parser \<Rightarrow> string list \<Rightarrow> AdjacencyList \<Rightarrow> error + AdjacencyList" where
  "load_graph_loop int_of float_of [] graph = Inr graph"
| "load_graph_loop int_of float_of (raw_line # lines) graph =
     (case parse_road_line int_of float_of raw_line of
        Inl e \<Rightarrow> Inl e
      | Inr None \<Rightarrow> load_graph_loop int_of float_of lines graph
      | Inr (Some (left_id, right_id, miles, description)) \<Rightarrow>
          load_graph_loop int_of float_of lines
            (setdefault_append
               (setdefault_append graph left_id (right_id, miles, description))
               right_id (left_id, miles, description)))"

definition load_graph ::
  "int_parser \<Rightarrow> float_parser \<Rightarrow> string list option \<Rightarrow> error + AdjacencyList" where
  "load_graph int_of float_of road_file =
     (case road_file of
        None \<Rightarrow> Inl FileNotFoundError
      | Some lines \<Rightarrow> load_graph_loop int_of float_of lines Map.empty)"

section \<open>Edge lookup and the route renderer\<close>







section \<open>The priority queue\<close>

text \<open>
  \<^verbatim>\<open>heapq\<close> is a library. Its items here are tuples \<^verbatim>\<open>(distance, node)\<close>, which Python
  compares lexicographically (the first components that are not \<^verbatim>\<open>==\<close> decide), and
  \<^verbatim>\<open>heappop\<close> removes and returns the smallest item. No NaN is ever pushed (a NaN is
  less than nothing, so it is never recorded as a distance), so the items are totally
  ordered; two items that compare equal are the same tuple, so the item returned and the
  items left are determined by the bag of items alone: the heap is modelled as that bag,
  kept in a list.
\<close>

type_synonym heap_item = "pyfloat \<times> int"

definition item_less :: "heap_item \<Rightarrow> heap_item \<Rightarrow> bool" where
  "item_less x y = (if feq (fst x) (fst y) then snd x < snd y else fless (fst x) (fst y))"

fun smallest :: "heap_item \<Rightarrow> heap_item list \<Rightarrow> heap_item" where
  "smallest m [] = m"
| "smallest m (x # xs) = smallest (if item_less x m then x else m) xs"

definition heappush :: "heap_item list \<Rightarrow> heap_item \<Rightarrow> heap_item list" where
  "heappush heap item = heap @ [item]"

text \<open>\<^verbatim>\<open>heappop\<close> is only called on a non-empty heap (the loop tests \<^verbatim>\<open>while heap\<close>).\<close>

definition heappop :: "heap_item list \<Rightarrow> heap_item \<times> heap_item list" where
  "heappop heap = (let m = smallest (hd heap) (tl heap) in (m, remove1 m heap))"

section \<open>The shortest-path engine\<close>

text \<open>
  The state of \<^verbatim>\<open>dijkstra\<close>: the graph it was handed (a shared dictionary, which the
  function could mutate) and its three locals.
\<close>

record dstate =
  graph :: AdjacencyList
  dist_map :: "int \<rightharpoonup> pyfloat"
  prev_map :: "int \<rightharpoonup> int"
  heap :: "heap_item list"

text \<open>\<^verbatim>\<open>dist.get(v, float("inf"))\<close> and \<^verbatim>\<open>new_dist < dist.get(v, float("inf"))\<close>\<close>

definition dist_get :: "(int \<rightharpoonup> pyfloat) \<Rightarrow> int \<Rightarrow> pyfloat" where
  "dist_get dm v = (case dm v of None \<Rightarrow> PInf | Some d \<Rightarrow> d)"

definition improves :: "pyfloat \<Rightarrow> (int \<rightharpoonup> pyfloat) \<Rightarrow> int \<Rightarrow> bool" where
  "improves new_dist dm v = fless new_dist (dist_get dm v)"

text \<open>
  The body of the \<^verbatim>\<open>for v, weight, _description in graph.get(u, [])\<close> loop, and the
  loop over the neighbour list.
\<close>

definition relax_edge :: "pyfloat \<Rightarrow> int \<Rightarrow> edge \<Rightarrow> dstate \<Rightarrow> dstate" where
  "relax_edge current_dist u e st =
     (case e of (v, weight, description) \<Rightarrow>
        let new_dist = fadd current_dist weight in
        if improves new_dist (dist_map st) v
        then st\<lparr>dist_map := (dist_map st)(v \<mapsto> new_dist),
                prev_map := (prev_map st)(v \<mapsto> u),
                heap := heappush (heap st) (new_dist, v)\<rparr>
        else st)"

fun relax :: "pyfloat \<Rightarrow> int \<Rightarrow> edge list \<Rightarrow> dstate \<Rightarrow> dstate" where
  "relax current_dist u [] st = st"
| "relax current_dist u (e # es) st = relax current_dist u es (relax_edge current_dist u e st)"

text \<open>\<^verbatim>\<open>current_dist > dist.get(u, float("inf"))\<close>\<close>

definition outdated :: "pyfloat \<Rightarrow> (int \<rightharpoonup> pyfloat) \<Rightarrow> int \<Rightarrow> bool" where
  "outdated current_dist dm u = fless (dist_get dm u) current_dist"

text \<open>
  The \<^verbatim>\<open>while heap\<close> loop. Not returning is the value \<open>None\<close>; that the loop returns
  is proved below for the graphs with non-negative weights.
\<close>

partial_function (option) dijkstra_loop :: "int \<Rightarrow> dstate \<Rightarrow> dstate option" where
  "dijkstra_loop target st =
     (if heap st = [] then Some st
      else
        (case heappop (heap st) of
           ((current_dist, u), rest) \<Rightarrow>
             let st1 = st\<lparr>heap := rest\<rparr> in
             if outdated current_dist (dist_map st1) u then dijkstra_loop target st1
             else if u = target then Some st1
             else dijkstra_loop target
                    (relax current_dist u (graph_get (graph st1) u) st1)))"

declare dijkstra_loop.simps [code]

definition dijkstra_init :: "AdjacencyList \<Rightarrow> int \<Rightarrow> dstate" where
  "dijkstra_init g source =
     \<lparr>graph = g, dist_map = [source \<mapsto> Fin 0], prev_map = Map.empty,
      heap = [(Fin 0, source)]\<rparr>"

definition dijkstra_run :: "AdjacencyList \<Rightarrow> int \<Rightarrow> int \<Rightarrow> dstate option" where
  "dijkstra_run g source target = dijkstra_loop target (dijkstra_init g source)"

definition dijkstra ::
  "AdjacencyList \<Rightarrow> int \<Rightarrow> int \<Rightarrow> ((int \<rightharpoonup> pyfloat) \<times> (int \<rightharpoonup> int)) option" where
  "dijkstra g source target =
     map_option (\<lambda>st. (dist_map st, prev_map st)) (dijkstra_run g source target)"

section \<open>The path reconstructor\<close>

text \<open>
  The \<^verbatim>\<open>while current != source\<close> loop; \<open>path\<close> is the list in the order of the appends.
  The inner \<open>option\<close> is Python's \<^verbatim>\<open>Optional\<close>; the outer one is \<open>None\<close> when the loop does
  not end.
\<close>

partial_function (option) reconstruct_loop ::
  "(int \<rightharpoonup> int) \<Rightarrow> int \<Rightarrow> int \<Rightarrow> int list \<Rightarrow> int list option option" where
  "reconstruct_loop prev source current path =
     (if current \<noteq> source then
        (case prev current of
           None \<Rightarrow> Some None
         | Some c \<Rightarrow> reconstruct_loop prev source c (path @ [c]))
      else Some (Some (rev path)))"

declare reconstruct_loop.simps [code]

definition reconstruct_path ::
  "(int \<rightharpoonup> int) \<Rightarrow> int \<Rightarrow> int \<Rightarrow> int list option option" where
  "reconstruct_path prev source target =
     (if source = target then Some (Some [source])
      else if prev target = None then Some None
      else reconstruct_loop prev source target [target])"

section \<open>Paths, costs and file records\<close>

text \<open>
  A path is a sequence of stored adjacency entries, each taken from the neighbour list of
  the node reached so far. Its cost \<open>path_cost\<close> is accumulated as the engine does it, from
  \<^verbatim>\<open>0.0\<close> at the source, each weight added in double precision; \<open>exact_cost\<close> is the sum
  of the weights as real numbers.
\<close>

fun is_path :: "AdjacencyList \<Rightarrow> int \<Rightarrow> edge list \<Rightarrow> int \<Rightarrow> bool" where
  "is_path g u [] v = (u = v)"
| "is_path g u (e # es) v = (e \<in> set (graph_get g u) \<and> is_path g (fst e) es v)"

definition path_cost :: "edge list \<Rightarrow> pyfloat" where
  "path_cost p = foldl fadd (Fin 0) (map (\<lambda>e. fst (snd e)) p)"

definition real_of :: "pyfloat \<Rightarrow> real" where
  "real_of x = (case x of Fin r \<Rightarrow> r | _ \<Rightarrow> 0)"

definition exact_cost :: "edge list \<Rightarrow> real" where
  "exact_cost p = sum_list (map (\<lambda>e. real_of (fst (snd e))) p)"

text \<open>A road graph as the data model has it: all distances are non-negative.\<close>

definition nonneg :: "AdjacencyList \<Rightarrow> bool" where
  "nonneg g = (\<forall>u v w d. (v, w, d) \<in> set (graph_get g u) \<longrightarrow> nonneg_weight w)"

text \<open>
  The records of the non-blank lines of a file, in file order, and the neighbour list they
  give to a node: one entry for each end of a record at that node.
\<close>

fun place_records :: "int_parser \<Rightarrow> string list \<Rightarrow> (int \<times> string) list" where
  "place_records int_of [] = []"
| "place_records int_of (l # ls) =
     (case parse_place_line int_of l of
        Inr (Some r) \<Rightarrow> r # place_records int_of ls
      | _ \<Rightarrow> place_records int_of ls)"

fun road_records ::
  "int_parser \<Rightarrow> float_parser \<Rightarrow> string list \<Rightarrow> (int \<times> int \<times> pyfloat \<times> string) list" where
  "road_records int_of float_of [] = []"
| "road_records int_of float_of (l # ls) =
     (case parse_road_line int_of float_of l of
        Inr (Some r) \<Rightarrow> r # road_records int_of float_of ls
      | _ \<Rightarrow> road_records int_of float_of ls)"

fun entries_of :: "(int \<times> int \<times> pyfloat \<times> string) list \<Rightarrow> int \<Rightarrow> edge list" where
  "entries_of [] u = []"
| "entries_of ((left_id, right_id, miles, description) # rs) u =
     (if left_id = u then [(right_id, miles, description)] else []) @
     (if right_id = u then [(left_id, miles, description)] else []) @ entries_of rs u"

section \<open>Invariants of the engine\<close>

text \<open>
  On a graph with non-negative weights every recorded distance and every heap key is a
  finite non-negative double. A node is settled when it has a distance and no heap item
  carries that distance for it. \<open>dist_inv\<close> is the invariant of the main loop; \<open>P\<close> holds
  the edges of the node being expanded that are not relaxed yet, and \<open>b\<close> separates the
  settled distances from the heap.
\<close>

definition is_double :: "real \<Rightarrow> bool" where
  "is_double a = (round_double a = Fin a)"

definition nodes :: "AdjacencyList \<Rightarrow> int \<Rightarrow> int set" where
  "nodes g s = insert s (dom g \<union> {v. \<exists>u w d. (v, w, d) \<in> set (graph_get g u)})"

definition settled :: "dstate \<Rightarrow> int \<Rightarrow> bool" where
  "settled st v = (\<exists>d. dist_map st v = Some d \<and> (d, v) \<notin> set (heap st))"

definition dist_inv :: "AdjacencyList \<Rightarrow> int \<Rightarrow> (int \<times> edge) set \<Rightarrow> real \<Rightarrow> dstate \<Rightarrow> bool" where
  "dist_inv g s P b st =
     (graph st = g \<and>
      dist_map st s = Some (Fin 0) \<and>
      (\<forall>v x. dist_map st v = Some x \<longrightarrow> (\<exists>d. x = Fin d \<and> 0 \<le> d \<and> is_double d)) \<and>
      (\<forall>x v. (x, v) \<in> set (heap st) \<longrightarrow>
          (\<exists>d d'. x = Fin d \<and> b \<le> d \<and> dist_map st v = Some (Fin d') \<and> d' \<le> d)) \<and>
      distinct (heap st) \<and>
      (\<forall>v d. dist_map st v = Some (Fin d) \<longrightarrow> (Fin d, v) \<notin> set (heap st) \<longrightarrow> d \<le> b) \<and>
      (\<forall>u du v w d c. dist_map st u = Some (Fin du) \<longrightarrow> (Fin du, u) \<notin> set (heap st) \<longrightarrow>
          (v, w, d) \<in> set (graph_get g u) \<longrightarrow> (u, (v, w, d)) \<notin> P \<longrightarrow>
          fadd (Fin du) w = Fin c \<longrightarrow>
          (\<exists>dv. dist_map st v = Some (Fin dv) \<and> dv \<le> c)) \<and>
      dom (dist_map st) \<subseteq> nodes g s)"

definition path_inv :: "AdjacencyList \<Rightarrow> int \<Rightarrow> dstate \<Rightarrow> bool" where
  "path_inv g s st =
     (\<forall>v d. dist_map st v = Some d \<longrightarrow> (\<exists>p. is_path g s p v \<and> path_cost p = d))"

text \<open>Following the predecessor links from a node leads to the source.\<close>

inductive reaches :: "(int \<rightharpoonup> int) \<Rightarrow> int \<Rightarrow> int \<Rightarrow> bool" for prev :: "int \<rightharpoonup> int" and s :: int where
  reaches_source: "reaches prev s s"
| reaches_step: "prev v = Some u \<Longrightarrow> reaches prev s u \<Longrightarrow> reaches prev s v"

definition prev_inv :: "int \<Rightarrow> dstate \<Rightarrow> bool" where
  "prev_inv s st =
     (prev_map st s = None \<and>
      (\<forall>v u. prev_map st v = Some u \<longrightarrow> settled st u) \<and>
      (\<forall>v. dist_map st v \<noteq> None \<longrightarrow> reaches (prev_map st) s v) \<and>
      dom (prev_map st) \<subseteq> dom (dist_map st))"

definition post :: "AdjacencyList \<Rightarrow> int \<Rightarrow> int \<Rightarrow> dstate \<Rightarrow> bool" where
  "post g s t st =
     (graph st = g \<and> path_inv g s st \<and> prev_inv s st \<and>
      (\<forall>d p. dist_map st t = Some d \<longrightarrow> is_path g s p t \<longrightarrow> fle d (path_cost p)))"

section \<open>Example data\<close>

text \<open>
  Decimal numerals, the fragment of \<^verbatim>\<open>int\<close> and \<^verbatim>\<open>float\<close> the examples need
  (\<^verbatim>\<open>float\<close> returns the double nearest to the decimal value), and three small graphs.
\<close>

definition digit_val :: "char \<Rightarrow> nat option" where
  "digit_val c = (let n = (of_char c :: nat) in if 48 \<le> n \<and> n \<le> 57 then Some (n - 48) else None)"

fun digits_nat :: "string \<Rightarrow> nat \<Rightarrow> nat option" where
  "digits_nat [] acc = Some acc"
| "digits_nat (c # cs) acc =
     (case digit_val c of None \<Rightarrow> None | Some k \<Rightarrow> digits_nat cs (10 * acc + k))"

definition decimal_nat :: "string \<Rightarrow> nat option" where
  "decimal_nat s = (if s = [] then None else digits_nat s 0)"

definition decimal_int :: int_parser where
  "decimal_int s =
     (case s of
        [] \<Rightarrow> None
      | c # cs \<Rightarrow>
          if c = CHR ''-'' then map_option (\<lambda>n. - int n) (decimal_nat cs)
          else if c = CHR ''+'' then map_option int (decimal_nat cs)
          else map_option int (decimal_nat s))"

definition decimal_unsigned :: "string \<Rightarrow> real option" where
  "decimal_unsigned s =
     (let ip = takeWhile (\<lambda>c. c \<noteq> CHR ''.'') s; rest = dropWhile (\<lambda>c. c \<noteq> CHR ''.'') s in
      if rest = [] then map_option real (decimal_nat ip)
      else
        let fp = tl rest in
        if ip = [] \<and> fp = [] then None
        else
          (case (digits_nat ip 0, digits_nat fp 0) of
             (Some a, Some b) \<Rightarrow> Some (real a + real b / 10 ^ length fp)
           | _ \<Rightarrow> None))"

definition decimal_float :: float_parser where
  "decimal_float s =
     map_option round_double
       (case s of
          [] \<Rightarrow> None
        | c # cs \<Rightarrow>
            if c = CHR ''-'' then map_option uminus (decimal_unsigned cs)
            else if c = CHR ''+'' then decimal_unsigned cs
            else decimal_unsigned s)"

definition triangle_graph :: AdjacencyList where
  "triangle_graph =
     [1 \<mapsto> [(2, Fin 2, ''a''), (3, Fin 7, ''direct'')],
      2 \<mapsto> [(1, Fin 2, ''a''), (3, Fin 3, ''b'')],
      3 \<mapsto> [(2, Fin 3, ''b''), (1, Fin 7, ''direct'')]]"

definition islands_graph :: AdjacencyList where
  "islands_graph =
     [1 \<mapsto> [(2, Fin 2, ''a'')], 2 \<mapsto> [(1, Fin 2, ''a'')],
      3 \<mapsto> [(4, Fin 1, ''b'')], 4 \<mapsto> [(3, Fin 1, ''b'')]]"

text \<open>The graph of the roads file with the two lines \<^verbatim>\<open>1,2,10000000000000000,a\<close> and \<^verbatim>\<open>2,3,1,b\<close>.\<close>

definition long_road_graph :: AdjacencyList where
  "long_road_graph =
     [1 \<mapsto> [(2, Fin 10000000000000000, ''a'')],
      2 \<mapsto> [(1, Fin 10000000000000000, ''a''), (3, Fin 1, ''b'')],
      3 \<mapsto> [(2, Fin 1, ''b'')]]"


section \<open>Rounding to a double\<close>

text \<open>
  Rounding is monotone on the non-negative reals and leaves its own results unchanged;
  the engine's invariants need no more of the arithmetic than that.
\<close>

lemma round_even_of_int: "round_even (of_int m) = m"
  by (simp add: round_even_def)

lemma round_even_bounds: "\<lfloor>r\<rfloor> \<le> round_even r" "round_even r \<le> \<lfloor>r\<rfloor> + 1"
  by (simp_all add: round_even_def Let_def)

lemma round_even_mono:
  assumes "r \<le> s"
  shows "round_even r \<le> round_even s"
proof (cases "\<lfloor>r\<rfloor> < \<lfloor>s\<rfloor>")
  case True
  have "round_even r \<le> \<lfloor>r\<rfloor> + 1" by (rule round_even_bounds)
  also have "\<dots> \<le> \<lfloor>s\<rfloor>" using True by simp
  also have "\<dots> \<le> round_even s" by (rule round_even_bounds)
  finally show ?thesis .
next
  case False
  have "\<lfloor>r\<rfloor> \<le> \<lfloor>s\<rfloor>" using assms by (rule floor_mono)
  then have eq: "\<lfloor>r\<rfloor> = \<lfloor>s\<rfloor>" using False by simp
  have "r - of_int \<lfloor>s\<rfloor> \<le> s - of_int \<lfloor>s\<rfloor>" using assms by simp
  then show ?thesis
    unfolding round_even_def Let_def eq by auto
qed

lemma round_even_nonneg: "0 \<le> r \<Longrightarrow> 0 \<le> round_even r"
  using round_even_mono[of 0 r] round_even_of_int[of 0] by simp

lemma quantum_pos: "0 < quantum x"
  by (simp add: quantum_def)

lemma scaled_lt:
  assumes "0 \<le> x"
  shows "x * 2 ^ 1074 < 2 ^ (53 + ulp_exp x)"
proof -
  let ?n = "\<lfloor>\<bar>x\<bar> * 2 ^ 1074\<rfloor>"
  have nx: "?n = \<lfloor>x * 2 ^ 1074\<rfloor>" using assms by simp
  have "?n < 2 ^ (53 + ulp_exp x)"
  proof (cases "?n < 2 ^ 53")
    case True
    then show ?thesis by (simp add: ulp_exp_def)
  next
    case False
    then have pos: "0 < ?n" by (smt (verit) zero_less_power)
    have b53: "53 < bitlen ?n"
    proof (rule ccontr)
      assume "\<not> 53 < bitlen ?n"
      then have "nat (bitlen ?n) \<le> 53" by simp
      then have "(2::int) ^ nat (bitlen ?n) \<le> 2 ^ 53" by (intro power_increasing) simp_all
      then show False using bitlen_bounds[OF pos] False by linarith
    qed
    have "ulp_exp x = nat (bitlen ?n - 53)" using False by (simp add: ulp_exp_def)
    then have "53 + ulp_exp x = nat (bitlen ?n)" using b53 by simp
    then show ?thesis using bitlen_bounds[OF pos] by simp
  qed
  then have "\<lfloor>x * 2 ^ 1074\<rfloor> < 2 ^ (53 + ulp_exp x)" using nx by simp
  then have "x * 2 ^ 1074 < of_int (2 ^ (53 + ulp_exp x))" by (simp only: floor_less_iff)
  then show ?thesis by simp
qed

lemma scaled_ge:
  assumes "0 \<le> x" and "0 < ulp_exp x"
  shows "2 ^ (52 + ulp_exp x) \<le> x * 2 ^ 1074"
proof -
  let ?n = "\<lfloor>\<bar>x\<bar> * 2 ^ 1074\<rfloor>"
  have nx: "?n = \<lfloor>x * 2 ^ 1074\<rfloor>" using assms by simp
  have nlt: "\<not> ?n < 2 ^ 53" using assms(2) by (auto simp: ulp_exp_def Let_def split: if_splits)
  then have pos: "0 < ?n" by (smt (verit) zero_less_power)
  have e: "ulp_exp x = nat (bitlen ?n - 53)" using nlt by (simp add: ulp_exp_def)
  then have "52 + ulp_exp x = nat (bitlen ?n - 1)" using assms(2) by simp
  then have "(2::int) ^ (52 + ulp_exp x) \<le> ?n" using bitlen_bounds[OF pos] by simp
  then have "of_int ((2::int) ^ (52 + ulp_exp x)) \<le> x * 2 ^ 1074"
    unfolding nx by (simp only: le_floor_iff)
  then show ?thesis by simp
qed

lemma ulp_exp_mono:
  assumes "0 \<le> x" and "x \<le> y"
  shows "ulp_exp x \<le> ulp_exp y"
proof (rule ccontr)
  assume "\<not> ulp_exp x \<le> ulp_exp y"
  then have lt: "ulp_exp y < ulp_exp x" by simp
  have "y * 2 ^ 1074 < 2 ^ (53 + ulp_exp y)" using assms by (intro scaled_lt) simp
  also have "(2::real) ^ (53 + ulp_exp y) \<le> 2 ^ (52 + ulp_exp x)"
    using lt by (intro power_increasing) simp_all
  also have "\<dots> \<le> x * 2 ^ 1074" using assms(1) lt by (intro scaled_ge) simp_all
  finally show False using assms(2) by simp
qed

lemma round_grid_le:
  assumes "0 < q" and "x \<le> of_int k * q"
  shows "of_int (round_even (x / q)) * q \<le> of_int k * q"
proof -
  have "x / q \<le> of_int k" using assms by (simp add: pos_divide_le_eq)
  then have "round_even (x / q) \<le> round_even (of_int k)" by (rule round_even_mono)
  then have "round_even (x / q) \<le> k" by (simp add: round_even_of_int)
  then show ?thesis using assms(1) by simp
qed

lemma round_grid_ge:
  assumes "0 < q" and "of_int k * q \<le> x"
  shows "of_int k * q \<le> of_int (round_even (x / q)) * q"
proof -
  have "of_int k \<le> x / q" using assms by (simp add: pos_le_divide_eq)
  then have "round_even (of_int k) \<le> round_even (x / q)" by (rule round_even_mono)
  then have "k \<le> round_even (x / q)" by (simp add: round_even_of_int)
  then show ?thesis using assms(1) by simp
qed

lemma round_real_nonneg: "0 \<le> x \<Longrightarrow> 0 \<le> round_real x"
  unfolding round_real_def using quantum_pos[of x] round_even_nonneg[of "x / quantum x"]
  by simp

lemma round_real_mono:
  assumes "0 \<le> x" and "x \<le> y"
  shows "round_real x \<le> round_real y"
proof (cases "ulp_exp x = ulp_exp y")
  case True
  then have q: "quantum x = quantum y" by (simp add: quantum_def)
  have "x / quantum y \<le> y / quantum y"
    using assms(2) quantum_pos[of y] by (simp add: divide_right_mono)
  then have "round_even (x / quantum y) \<le> round_even (y / quantum y)" by (rule round_even_mono)
  then show ?thesis unfolding round_real_def q using quantum_pos[of y] by simp
next
  case False
  then have lt: "ulp_exp x < ulp_exp y" using ulp_exp_mono[OF assms] by simp
  let ?B = "(2::real) ^ (52 + ulp_exp y) / 2 ^ 1074"
  have y0: "0 \<le> y" using assms by simp
  have xB: "x \<le> ?B"
  proof -
    have "x * 2 ^ 1074 < 2 ^ (53 + ulp_exp x)" using assms(1) by (rule scaled_lt)
    also have "(2::real) ^ (53 + ulp_exp x) \<le> 2 ^ (52 + ulp_exp y)"
      using lt by (intro power_increasing) simp_all
    finally show ?thesis by (simp add: pos_le_divide_eq)
  qed
  have By: "?B \<le> y"
  proof -
    have "2 ^ (52 + ulp_exp y) \<le> y * 2 ^ 1074" using y0 lt by (intro scaled_ge) simp_all
    then show ?thesis by (simp add: pos_divide_le_eq)
  qed
  have Bx: "?B = of_int (2 ^ (52 + ulp_exp y - ulp_exp x)) * quantum x"
  proof -
    have "52 + ulp_exp y = (52 + ulp_exp y - ulp_exp x) + ulp_exp x" using lt by simp
    then have "(2::real) ^ (52 + ulp_exp y) = 2 ^ (52 + ulp_exp y - ulp_exp x) * 2 ^ ulp_exp x"
      by (metis power_add)
    then show ?thesis by (simp add: quantum_def)
  qed
  have Byq: "?B = of_int (2 ^ 52) * quantum y"
    by (simp add: quantum_def power_add)
  have "round_real x \<le> ?B"
    unfolding round_real_def
    using round_grid_le[where q = "quantum x" and x = x and k = "2 ^ (52 + ulp_exp y - ulp_exp x)"]
      quantum_pos[of x] xB Bx by simp
  also have "?B \<le> round_real y"
    unfolding round_real_def
    using round_grid_ge[where q = "quantum y" and x = y and k = "2 ^ 52"]
      quantum_pos[of y] By Byq by simp
  finally show ?thesis .
qed

lemma round_real_exact:
  assumes "0 \<le> k" and "k < 2 ^ 53"
  shows "round_real (of_int k * 2 ^ e / 2 ^ 1074) = of_int k * 2 ^ e / 2 ^ 1074"
proof -
  let ?x = "of_int k * 2 ^ e / 2 ^ 1074 :: real"
  have x0: "0 \<le> ?x" using assms(1) by simp
  have le: "ulp_exp ?x \<le> e"
  proof (rule ccontr)
    assume "\<not> ulp_exp ?x \<le> e"
    then have gt: "e < ulp_exp ?x" by simp
    then have "2 ^ (52 + ulp_exp ?x) \<le> ?x * 2 ^ 1074" using x0 by (intro scaled_ge) simp_all
    also have "?x * 2 ^ 1074 = of_int k * 2 ^ e" by simp
    also have "\<dots> < 2 ^ 53 * 2 ^ e"
    proof -
      have "(of_int k :: real) < of_int (2 ^ 53)" using assms(2) by (simp only: of_int_less_iff)
      then show ?thesis by simp
    qed
    also have "(2::real) ^ 53 * 2 ^ e = 2 ^ (53 + e)" by (simp add: power_add)
    also have "\<dots> \<le> 2 ^ (52 + ulp_exp ?x)" using gt by (intro power_increasing) simp_all
    finally show False by simp
  qed
  have "e = (e - ulp_exp ?x) + ulp_exp ?x" using le by simp
  then have p: "(2::real) ^ e = 2 ^ (e - ulp_exp ?x) * 2 ^ ulp_exp ?x" by (metis power_add)
  have "?x / quantum ?x = of_int k * 2 ^ e / 2 ^ ulp_exp ?x" by (simp add: quantum_def)
  also have "\<dots> = of_int k * 2 ^ (e - ulp_exp ?x)" by (subst p) simp
  also have "\<dots> = of_int (k * 2 ^ (e - ulp_exp ?x))" by simp
  finally have d: "?x / quantum ?x = of_int (k * 2 ^ (e - ulp_exp ?x))" .
  have "round_real ?x = of_int (k * 2 ^ (e - ulp_exp ?x)) * quantum ?x"
    unfolding round_real_def d round_even_of_int ..
  also have "\<dots> = ?x / quantum ?x * quantum ?x" by (simp only: d)
  also have "\<dots> = ?x" using quantum_pos[of ?x] by simp
  finally show ?thesis .
qed

lemma round_real_idem:
  assumes "0 \<le> x"
  shows "round_real (round_real x) = round_real x"
proof -
  let ?m = "round_even (x / quantum x)"
  have m0: "0 \<le> ?m" using assms quantum_pos[of x] by (intro round_even_nonneg) simp
  have "x / quantum x = x * 2 ^ 1074 / 2 ^ ulp_exp x" by (simp add: quantum_def)
  also have "\<dots> < 2 ^ (53 + ulp_exp x) / 2 ^ ulp_exp x"
    using scaled_lt[OF assms] by (simp add: divide_strict_right_mono)
  also have "\<dots> = 2 ^ 53" by (simp add: power_add)
  finally have "x / quantum x \<le> of_int (2 ^ 53)" by simp
  then have "?m \<le> round_even (of_int (2 ^ 53))" by (rule round_even_mono)
  then have mle: "?m \<le> 2 ^ 53" by (simp only: round_even_of_int)
  have rr: "round_real x = of_int ?m * 2 ^ ulp_exp x / 2 ^ 1074"
    by (simp add: round_real_def quantum_def)
  show ?thesis
  proof (cases "?m < 2 ^ 53")
    case True
    show ?thesis unfolding rr by (rule round_real_exact[OF m0 True])
  next
    case False
    then have m: "?m = 2 ^ 53" using mle by simp
    have h: "(of_int (2 ^ 53) :: real) * 2 ^ ulp_exp x = of_int (2 ^ 52) * 2 ^ (Suc (ulp_exp x))"
      by simp
    have e1: "round_real x = of_int (2 ^ 52) * 2 ^ (Suc (ulp_exp x)) / 2 ^ 1074"
      unfolding rr m by (simp only: h)
    show ?thesis unfolding e1 by (rule round_real_exact) simp_all
  qed
qed

lemma round_double_Fin:
  "round_double x = Fin a \<longleftrightarrow> a = round_real x \<and> round_real x < 2 ^ 1024 \<and> - (2 ^ 1024) < round_real x"
  by (auto simp: round_double_def Let_def)

lemma round_double_nonneg_cases:
  assumes "0 \<le> x"
  shows "round_double x = PInf \<or> (\<exists>a. round_double x = Fin a \<and> 0 \<le> a)"
  using round_real_nonneg[OF assms] by (auto simp: round_double_def Let_def)

lemma round_double_mono:
  assumes "0 \<le> x" and "x \<le> y" and "round_double y = Fin b"
  shows "\<exists>a. round_double x = Fin a \<and> 0 \<le> a \<and> a \<le> b"
proof -
  have b: "b = round_real y" "round_real y < 2 ^ 1024" using assms(3) by (auto simp: round_double_Fin)
  have le: "round_real x \<le> round_real y" using assms(1,2) by (rule round_real_mono)
  have x0: "0 \<le> round_real x" using assms(1) by (rule round_real_nonneg)
  have "round_double x = Fin (round_real x)"
    unfolding round_double_Fin using le b(2) x0 by simp
  then show ?thesis using le x0 b(1) by simp
qed

lemma round_double_idem:
  assumes "0 \<le> x" and "round_double x = Fin a"
  shows "is_double a"
proof -
  have a: "a = round_real x" "round_real x < 2 ^ 1024" "- (2 ^ 1024) < round_real x"
    using assms(2) by (auto simp: round_double_Fin)
  have "round_real a = a" unfolding a(1) by (rule round_real_idem[OF assms(1)])
  then show ?thesis unfolding is_double_def round_double_Fin using a by simp
qed

lemma is_double_scaled:
  assumes "0 \<le> k" and "k < 2 ^ 53" and "j \<le> 970"
  shows "is_double (of_int k * 2 ^ j)"
proof -
  have eq: "(of_int k * 2 ^ j :: real) = of_int k * 2 ^ (j + 1074) / 2 ^ 1074"
    by (simp add: power_add)
  have rr: "round_real (of_int k * 2 ^ j) = of_int k * 2 ^ j"
    by (subst (1 2) eq) (rule round_real_exact[OF assms(1,2)])
  have "(of_int k :: real) < of_int (2 ^ 53)" using assms(2) by (simp only: of_int_less_iff)
  then have "(of_int k :: real) * 2 ^ j < 2 ^ 53 * 2 ^ j" by simp
  also have "\<dots> = 2 ^ (53 + j)" by (simp add: power_add)
  also have "\<dots> \<le> 2 ^ 1024" using assms(3) by (intro power_increasing) simp_all
  finally have lt: "(of_int k :: real) * 2 ^ j < 2 ^ 1024" .
  have "- (2 ^ 1024) < (0::real)" by simp
  also have "0 \<le> (of_int k :: real) * 2 ^ j" using assms(1) by simp
  finally have gt: "- (2 ^ 1024) < (of_int k :: real) * 2 ^ j" .
  show ?thesis unfolding is_double_def round_double_Fin rr using lt gt by simp
qed

lemma dyadic_eq: "(x::real) / 2 ^ j = x * 2 ^ a / 2 ^ (a + j)"
  by (simp add: power_add)

lemma is_double_dyadic:
  assumes "0 \<le> k" and "k < 2 ^ 53" and "j \<le> 1074"
  shows "is_double (of_int k / 2 ^ j)"
proof -
  have p: "1074 - j + j = 1074" using assms(3) by simp
  have eq: "(of_int k / 2 ^ j :: real) = of_int k * 2 ^ (1074 - j) / 2 ^ 1074"
    using dyadic_eq[of "of_int k" j "1074 - j"] by (simp only: p)
  have rr: "round_real (of_int k / 2 ^ j) = of_int k / 2 ^ j"
    by (subst (1 2) eq) (rule round_real_exact[OF assms(1,2)])
  have "(of_int k :: real) < of_int (2 ^ 53)" using assms(2) by (simp only: of_int_less_iff)
  then have "(of_int k :: real) / 2 ^ j < 2 ^ 53 / 2 ^ j" by (simp add: divide_strict_right_mono)
  also have "\<dots> \<le> 2 ^ 53 / 1" by (intro divide_left_mono) simp_all
  also have "\<dots> \<le> 2 ^ 1024" by simp
  finally have lt: "(of_int k :: real) / 2 ^ j < 2 ^ 1024" .
  have "- (2 ^ 1024) < (0::real)" by simp
  also have "0 \<le> (of_int k :: real) / 2 ^ j" using assms(1) by simp
  finally have gt: "- (2 ^ 1024) < (of_int k :: real) / 2 ^ j" .
  show ?thesis unfolding is_double_def round_double_Fin rr using lt gt by simp
qed

lemma ulp_exp_big:
  assumes "2 ^ (52 + j) \<le> x" and "x < 2 ^ (53 + j)"
  shows "quantum x = 2 ^ j"
proof -
  have x0: "0 \<le> x" using assms(1) by (smt (verit) zero_less_power)
  have lo: "(2::real) ^ (52 + (1074 + j)) \<le> x * 2 ^ 1074"
  proof -
    have "(2::real) ^ (52 + (1074 + j)) = 2 ^ (52 + j) * 2 ^ 1074" by (simp add: power_add)
    also have "\<dots> \<le> x * 2 ^ 1074" using assms(1) by simp
    finally show ?thesis .
  qed
  have hi: "x * 2 ^ 1074 < (2::real) ^ (53 + (1074 + j))"
  proof -
    have "x * 2 ^ 1074 < 2 ^ (53 + j) * 2 ^ 1074" using assms(2) by simp
    also have "\<dots> = (2::real) ^ (53 + (1074 + j))" by (simp add: power_add)
    finally show ?thesis .
  qed
  have "ulp_exp x = 1074 + j"
  proof (rule ccontr)
    assume ne: "ulp_exp x \<noteq> 1074 + j"
    show False
    proof (cases "ulp_exp x < 1074 + j")
      case True
      have "x * 2 ^ 1074 < 2 ^ (53 + ulp_exp x)" using x0 by (rule scaled_lt)
      also have "(2::real) ^ (53 + ulp_exp x) \<le> 2 ^ (52 + (1074 + j))"
        using True by (intro power_increasing) simp_all
      finally show False using lo by simp
    next
      case False
      then have gt: "1074 + j < ulp_exp x" using ne by simp
      have "x * 2 ^ 1074 < (2::real) ^ (53 + (1074 + j))" by (rule hi)
      also have "\<dots> \<le> 2 ^ (52 + ulp_exp x)" using gt by (intro power_increasing) simp_all
      also have "\<dots> \<le> x * 2 ^ 1074" using x0 gt by (intro scaled_ge) simp_all
      finally show False by simp
    qed
  qed
  then show ?thesis by (simp add: quantum_def power_add)
qed

lemma tie_example: "round_double (10000000000000000 + 1) = Fin 10000000000000000"
proof -
  have q: "quantum (10000000000000000 + 1) = 2 ^ 1"
    by (rule ulp_exp_big) simp_all
  have "round_real (10000000000000000 + 1) = 10000000000000000"
    unfolding round_real_def q by (simp add: round_even_def)
  then show ?thesis by (simp add: round_double_def)
qed

lemma is_double_0: "is_double 0"
  using is_double_scaled[of 0 0] by simp

lemma nonneg_weight_cases:
  assumes "nonneg_weight w"
  obtains "w = PInf" | r where "w = Fin r" and "0 \<le> r"
  using assms by (cases w) (auto simp: nonneg_weight_def)

lemma fadd_Fin_Fin:
  assumes "fadd (Fin b) w = Fin c" and "nonneg_weight w"
  shows "\<exists>r. w = Fin r \<and> 0 \<le> r \<and> round_double (b + r) = Fin c"
  using assms by (cases w) (auto simp: nonneg_weight_def)

lemma fadd_nonneg_cases:
  assumes "0 \<le> b" and "nonneg_weight w"
  shows "fadd (Fin b) w = PInf \<or> (\<exists>c. fadd (Fin b) w = Fin c)"
proof (rule nonneg_weight_cases[OF assms(2)])
  assume "w = PInf"
  then show ?thesis by simp
next
  fix r assume r: "w = Fin r" "0 \<le> r"
  have "0 \<le> b + r" using assms(1) r(2) by simp
  from round_double_nonneg_cases[OF this] show ?thesis using r(1) by auto
qed

lemma fadd_grows:
  assumes "0 \<le> b" and "is_double b" and "nonneg_weight w" and "fadd (Fin b) w = Fin c"
  shows "b \<le> c" and "is_double c" and "0 \<le> c"
proof -
  obtain r where r: "w = Fin r" "0 \<le> r" "round_double (b + r) = Fin c"
    using fadd_Fin_Fin[OF assms(4,3)] by blast
  have le: "b \<le> b + r" using r(2) by simp
  obtain a where a: "round_double b = Fin a" "0 \<le> a" "a \<le> c"
    using round_double_mono[OF assms(1) le r(3)] by blast
  have "a = b" using a(1) assms(2) by (simp add: is_double_def)
  then show "b \<le> c" using a(3) by simp
  then show "0 \<le> c" using assms(1) by simp
  have "0 \<le> b + r" using assms(1) r(2) by simp
  then show "is_double c" using r(3) by (rule round_double_idem)
qed

lemma fadd_mono:
  assumes "0 \<le> a" and "a \<le> b" and "nonneg_weight w" and "fadd (Fin b) w = Fin c"
  shows "\<exists>c'. fadd (Fin a) w = Fin c' \<and> c' \<le> c"
proof -
  obtain r where r: "w = Fin r" "0 \<le> r" "round_double (b + r) = Fin c"
    using fadd_Fin_Fin[OF assms(4,3)] by blast
  have 1: "0 \<le> a + r" using assms(1) r(2) by simp
  have 2: "a + r \<le> b + r" using assms(2) by simp
  from round_double_mono[OF 1 2 r(3)] show ?thesis using r(1) by auto
qed

section \<open>Evaluation rules for the examples\<close>

lemma round_double_0: "round_double 0 = Fin 0"
  using is_double_0 by (simp add: is_double_def)

lemma round_double_1: "round_double 1 = Fin 1"
  using is_double_scaled[of 1 0] by (simp add: is_double_def)

lemma round_double_numeral:
  "numeral n < (2::int) ^ 53 \<Longrightarrow> round_double (numeral n) = Fin (numeral n)"
  using is_double_scaled[of "numeral n" 0] by (simp add: is_double_def)

lemma round_double_half:
  "numeral n < (2::int) ^ 53 \<Longrightarrow> round_double (numeral n / 2) = Fin (numeral n / 2)"
  using is_double_dyadic[of "numeral n" 1] by (simp add: is_double_def)

lemma round_double_ten_to_16: "round_double 10000000000000000 = Fin 10000000000000000"
  using is_double_scaled[of 152587890625 16] by (simp add: is_double_def)

lemma round_double_tie: "round_double 10000000000000001 = Fin 10000000000000000"
  using tie_example by simp

lemma round_double_2e16: "round_double 20000000000000000 = Fin 20000000000000000"
  using is_double_scaled[of 152587890625 17] by (simp add: is_double_def)

lemmas double_eval = round_double_0 round_double_1 round_double_numeral round_double_half
  round_double_ten_to_16 round_double_tie

lemmas parse_eval = parse_road_line_def parse_place_line_def Let_def strip_def is_space_def
  numeral_3_eq_3 decimal_int_def decimal_float_def decimal_unsigned_def decimal_nat_def
  digit_val_def double_eval

lemmas run_eval = dijkstra_def dijkstra_run_def dijkstra_init_def dijkstra_loop.simps
  heappop_def heappush_def item_less_def outdated_def improves_def dist_get_def
  relax_edge_def Let_def double_eval

section \<open>The place catalog loader: first record wins\<close>

lemma load_places_loop_maps:
  "load_places_loop int_of lines n2i i2n = Inr (n2i', i2n') \<Longrightarrow>
     i2n' = map_of (place_records int_of lines) ++ i2n \<and>
     n2i' = map_of (map prod.swap (place_records int_of lines)) ++ n2i"
proof (induction lines arbitrary: n2i i2n)
  case Nil then show ?case by simp
next
  case (Cons l ls)
  show ?case
  proof (cases "parse_place_line int_of l")
    case (Inl e) then show ?thesis using Cons.prems by simp
  next
    case (Inr r)
    show ?thesis
    proof (cases r)
      case None
      then show ?thesis using Cons Inr by simp
    next
      case (Some rec)
      obtain k nm where rec: "rec = (k, nm)" by (cases rec) auto
      let ?n = "if n2i nm = None then n2i(nm \<mapsto> k) else n2i"
      let ?i = "if i2n k = None then i2n(k \<mapsto> nm) else i2n"
      have "load_places_loop int_of ls ?n ?i = Inr (n2i', i2n')"
        using Cons.prems Inr Some rec by simp
      from Cons.IH[OF this]
      have ih: "i2n' = map_of (place_records int_of ls) ++ ?i"
        "n2i' = map_of (map prod.swap (place_records int_of ls)) ++ ?n" by auto
      have pr: "place_records int_of (l # ls) = (k, nm) # place_records int_of ls"
        using Inr Some rec by simp
      have a: "map_of (place_records int_of ls) ++ ?i = map_of ((k, nm) # place_records int_of ls) ++ i2n"
        by (rule ext) (auto simp: map_add_def split: option.splits)
      have b: "map_of (map prod.swap (place_records int_of ls)) ++ ?n
           = map_of (map prod.swap ((k, nm) # place_records int_of ls)) ++ n2i"
        by (rule ext) (auto simp: map_add_def split: option.splits)
      have "i2n' = map_of ((k, nm) # place_records int_of ls) ++ i2n"
        using ih(1) a by (rule trans)
      moreover have "n2i' = map_of (map prod.swap ((k, nm) # place_records int_of ls)) ++ n2i"
        using ih(2) b by (rule trans)
      ultimately show ?thesis unfolding pr by (rule conjI)
    qed
  qed
qed

lemma map_of_first:
  "i < length xs \<Longrightarrow> \<forall>j<i. fst (xs ! j) \<noteq> fst (xs ! i) \<Longrightarrow>
     map_of xs (fst (xs ! i)) = Some (snd (xs ! i))"
proof (induction xs arbitrary: i)
  case Nil then show ?case by simp
next
  case (Cons x xs)
  show ?case
  proof (cases i)
    case 0 then show ?thesis by simp
  next
    case (Suc n)
    have n: "n < length xs" using Cons.prems(1) Suc by simp
    have ne: "fst x \<noteq> fst (xs ! n)" using Cons.prems(2)[rule_format, of 0] Suc by simp
    have "\<forall>j<n. fst (xs ! j) \<noteq> fst (xs ! n)"
    proof (intro allI impI)
      fix j assume "j < n"
      then have "Suc j < i" using Suc by simp
      from Cons.prems(2)[rule_format, OF this] show "fst (xs ! j) \<noteq> fst (xs ! n)" using Suc by simp
    qed
    from Cons.IH[OF n this] show ?thesis using Suc ne by (cases x) auto
  qed
qed

text \<open>
  C2. When the place catalog loader succeeds on a places source, then in the
  identifier-to-name mapping every identifier is bound to the name of the first record
  that carries it, in the name-to-identifier mapping every name is bound to the identifier
  of the first record that carries it, and the two mappings have no other keys, however
  many later records repeat an identifier or a name. (A key of a mapping occurs once.)
\<close>

theorem load_places_first_seen:
  assumes "load_places int_of (Some lines) = Inr (name_to_id, id_to_name)"
  shows "(\<forall>i<length (place_records int_of lines).
        (\<forall>j<i. fst (place_records int_of lines ! j) \<noteq> fst (place_records int_of lines ! i)) \<longrightarrow>
        id_to_name (fst (place_records int_of lines ! i)) = Some (snd (place_records int_of lines ! i))) \<and>
     (\<forall>i<length (place_records int_of lines).
        (\<forall>j<i. snd (place_records int_of lines ! j) \<noteq> snd (place_records int_of lines ! i)) \<longrightarrow>
        name_to_id (snd (place_records int_of lines ! i)) = Some (fst (place_records int_of lines ! i))) \<and>
     dom id_to_name = fst ` set (place_records int_of lines) \<and>
     dom name_to_id = snd ` set (place_records int_of lines)"
proof -
  let ?recs = "place_records int_of lines"
  have "load_places_loop int_of lines Map.empty Map.empty = Inr (name_to_id, id_to_name)"
    using assms by (simp add: load_places_def)
  from load_places_loop_maps[OF this]
  have i: "id_to_name = map_of ?recs" and n: "name_to_id = map_of (map prod.swap ?recs)" by auto
  have 1: "\<forall>i<length ?recs. (\<forall>j<i. fst (?recs ! j) \<noteq> fst (?recs ! i)) \<longrightarrow>
        id_to_name (fst (?recs ! i)) = Some (snd (?recs ! i))"
    unfolding i using map_of_first[of _ ?recs] by blast
  have 2: "\<forall>i<length ?recs. (\<forall>j<i. snd (?recs ! j) \<noteq> snd (?recs ! i)) \<longrightarrow>
        name_to_id (snd (?recs ! i)) = Some (fst (?recs ! i))"
  proof (intro allI impI)
    fix i assume a: "i < length ?recs" "\<forall>j<i. snd (?recs ! j) \<noteq> snd (?recs ! i)"
    have "map_of (map prod.swap ?recs) (fst (map prod.swap ?recs ! i)) = Some (snd (map prod.swap ?recs ! i))"
      using a by (intro map_of_first) auto
    then show "name_to_id (snd (?recs ! i)) = Some (fst (?recs ! i))"
      using a(1) by (simp add: n)
  qed
  have 3: "dom id_to_name = fst ` set ?recs" unfolding i by (rule dom_map_of_conv_image_fst)
  have 4: "dom name_to_id = snd ` set ?recs"
    unfolding n by (simp add: dom_map_of_conv_image_fst image_image)
  show ?thesis using 1 2 3 4 by (intro conjI)
qed

theorem load_places_first_seen_witness:
  "\<exists>name_to_id id_to_name.
     load_places decimal_int
       (Some [''1,Lexington'', ''2,Columbia'', '''', ''1,Dup'', ''3,Lexington'', ''4,''])
       = Inr (name_to_id, id_to_name) \<and>
     id_to_name 1 = Some ''Lexington'' \<and> name_to_id ''Lexington'' = Some 1 \<and>
     id_to_name 4 = Some ''null'' \<and> dom id_to_name = {1, 2, 3, 4}"
proof -
  let ?L = "[''1,Lexington'', ''2,Columbia'', '''', ''1,Dup'', ''3,Lexington'', ''4,'']"
  have recs: "place_records decimal_int ?L =
      [(1, ''Lexington''), (2, ''Columbia''), (1, ''Dup''), (3, ''Lexington''), (4, ''null'')]"
    by (simp add: parse_eval)
  obtain n2i i2n where ld: "load_places decimal_int (Some ?L) = Inr (n2i, i2n)"
    by (simp add: load_places_def parse_eval)
  note th = load_places_first_seen[OF ld, unfolded recs]
  note a = th[THEN conjunct1] and b = th[THEN conjunct2, THEN conjunct1]
    and c = th[THEN conjunct2, THEN conjunct2, THEN conjunct1]
  have "i2n 1 = Some ''Lexington''" using a[rule_format, of 0] by simp
  moreover have "n2i ''Lexington'' = Some 1" using b[rule_format, of 0] by simp
  moreover have "i2n 4 = Some ''null''"
    using a[rule_format, of 4] by (simp add: less_Suc_eq nth_Cons')
  moreover have "dom i2n = {1, 2, 3, 4}" using c by auto
  ultimately show ?thesis using ld by (intro exI conjI)
qed

section \<open>The road graph loader\<close>

lemma graph_get_setdefault_append:
  "graph_get (setdefault_append g k e) u = (if u = k then graph_get g k @ [e] else graph_get g u)"
  by (simp add: setdefault_append_def graph_get_def)

lemma load_graph_loop_entries:
  "load_graph_loop int_of float_of lines g0 = Inr g \<Longrightarrow>
     graph_get g u = graph_get g0 u @ entries_of (road_records int_of float_of lines) u"
proof (induction lines arbitrary: g0)
  case Nil then show ?case by simp
next
  case (Cons l ls)
  show ?case
  proof (cases "parse_road_line int_of float_of l")
    case (Inl e) then show ?thesis using Cons.prems by simp
  next
    case (Inr r)
    show ?thesis
    proof (cases r)
      case None
      then show ?thesis using Cons Inr by simp
    next
      case (Some rec)
      obtain a b m d where rec: "rec = (a, b, m, d)" by (cases rec) auto
      let ?g1 = "setdefault_append (setdefault_append g0 a (b, m, d)) b (a, m, d)"
      have "load_graph_loop int_of float_of ls ?g1 = Inr g"
        using Cons.prems Inr Some rec by simp
      from Cons.IH[OF this] show ?thesis
        using Inr Some rec by (simp add: graph_get_setdefault_append)
    qed
  qed
qed

lemma load_graph_loop_dom:
  "load_graph_loop int_of float_of lines g0 = Inr g \<Longrightarrow> finite (dom g0) \<Longrightarrow> finite (dom g)"
proof (induction lines arbitrary: g0)
  case Nil then show ?case by simp
next
  case (Cons l ls)
  show ?case
  proof (cases "parse_road_line int_of float_of l")
    case (Inl e) then show ?thesis using Cons.prems by simp
  next
    case (Inr r)
    show ?thesis
    proof (cases r)
      case None
      then show ?thesis using Cons Inr by simp
    next
      case (Some rec)
      obtain a b m d where rec: "rec = (a, b, m, d)" by (cases rec) auto
      let ?g1 = "setdefault_append (setdefault_append g0 a (b, m, d)) b (a, m, d)"
      have 1: "load_graph_loop int_of float_of ls ?g1 = Inr g"
        using Cons.prems Inr Some rec by simp
      have 2: "finite (dom ?g1)" using Cons.prems(2) by (simp add: setdefault_append_def)
      from Cons.IH[OF 1 2] show ?thesis .
    qed
  qed
qed

lemma entries_of_mem:
  "(v, w, d) \<in> set (entries_of rs u) \<longleftrightarrow> ((u, v, w, d) \<in> set rs \<or> (v, u, w, d) \<in> set rs)"
  by (induction rs u rule: entries_of.induct) auto

lemma load_graph_finite:
  assumes "load_graph int_of float_of (Some lines) = Inr g"
  shows "finite (dom g)"
proof -
  have "load_graph_loop int_of float_of lines Map.empty = Inr g"
    using assms by (simp add: load_graph_def)
  then show ?thesis by (rule load_graph_loop_dom) simp
qed

text \<open>
  C3. When the road graph loader succeeds, the adjacency structure is symmetric: every
  stored entry (v, w, d) in the neighbour list of u has the mirror entry (u, w, d) in the
  neighbour list of v. Each record appends its two entries and replaces nothing: the
  neighbour list of every node is, in file order, one entry for each end of a record at
  that node, so parallel edges are all kept.
\<close>

theorem load_graph_symmetric:
  assumes "load_graph int_of float_of (Some lines) = Inr g"
  shows "(\<forall>u v w d. (v, w, d) \<in> set (graph_get g u) \<longrightarrow> (u, w, d) \<in> set (graph_get g v)) \<and>
     (\<forall>u. graph_get g u = entries_of (road_records int_of float_of lines) u)"
proof -
  have "load_graph_loop int_of float_of lines Map.empty = Inr g"
    using assms by (simp add: load_graph_def)
  from load_graph_loop_entries[OF this]
  have e: "\<And>u. graph_get g u = entries_of (road_records int_of float_of lines) u"
    by (simp add: graph_get_def)
  have s: "\<forall>u v w d. (v, w, d) \<in> set (graph_get g u) \<longrightarrow> (u, w, d) \<in> set (graph_get g v)"
    unfolding e entries_of_mem by blast
  have "\<forall>u. graph_get g u = entries_of (road_records int_of float_of lines) u"
    using e by simp
  with s show ?thesis by (rule conjI)
qed

theorem load_graph_symmetric_witness:
  "\<exists>g. load_graph decimal_int decimal_float
          (Some [''1,2,3.5,Elm St'', ''2,1,4,Oak'', '''', ''3,3,0,Loop'']) = Inr g \<and>
     graph_get g 1 = [(2, Fin 3.5, ''Elm St''), (2, Fin 4, ''Oak'')] \<and>
     graph_get g 2 = [(1, Fin 3.5, ''Elm St''), (1, Fin 4, ''Oak'')] \<and>
     graph_get g 3 = [(3, Fin 0, ''Loop''), (3, Fin 0, ''Loop'')] \<and>
     (1, Fin 4, ''Oak'') \<in> set (graph_get g 2)"
proof -
  let ?L = "[''1,2,3.5,Elm St'', ''2,1,4,Oak'', '''', ''3,3,0,Loop'']"
  have recs: "road_records decimal_int decimal_float ?L =
      [(1, 2, Fin 3.5, ''Elm St''), (2, 1, Fin 4, ''Oak''), (3, 3, Fin 0, ''Loop'')]"
    by (simp add: parse_eval)
  obtain g where ld: "load_graph decimal_int decimal_float (Some ?L) = Inr g"
    by (simp add: load_graph_def parse_eval)
  note th = load_graph_symmetric[OF ld]
  have sym: "\<And>u v w d. (v, w, d) \<in> set (graph_get g u) \<Longrightarrow> (u, w, d) \<in> set (graph_get g v)"
    using th[THEN conjunct1] by simp
  have e: "\<And>u. graph_get g u = entries_of (road_records decimal_int decimal_float ?L) u"
    using th[THEN conjunct2] by (rule spec)
  have g1: "graph_get g 1 = [(2, Fin 3.5, ''Elm St''), (2, Fin 4, ''Oak'')]" unfolding e recs by simp
  have g2: "graph_get g 2 = [(1, Fin 3.5, ''Elm St''), (1, Fin 4, ''Oak'')]" unfolding e recs by simp
  have g3: "graph_get g 3 = [(3, Fin 0, ''Loop''), (3, Fin 0, ''Loop'')]" unfolding e recs by simp
  have "(2, Fin 4, ''Oak'') \<in> set (graph_get g 1)" by (simp add: g1)
  then have g4: "(1, Fin 4, ''Oak'') \<in> set (graph_get g 2)" by (rule sym)
  show ?thesis using ld g1 g2 g3 g4 by (intro exI conjI)
qed

lemma parse_road_line_error: "parse_road_line int_of float_of l = Inl e \<Longrightarrow> e = ValueError"
  by (auto simp: parse_road_line_def Let_def split: if_splits option.splits)

lemma parse_road_line_bad_id:
  assumes "strip raw_line \<noteq> []" and "int_of (strip (split_max 3 (strip raw_line) ! 0)) = None"
  shows "parse_road_line int_of float_of raw_line = Inl ValueError"
  using assms by (simp add: parse_road_line_def Let_def)

lemma load_graph_loop_bad_line:
  assumes "raw_line \<in> set lines"
    and "parse_road_line int_of float_of raw_line = Inl ValueError"
  shows "load_graph_loop int_of float_of lines g0 = Inl ValueError"
  using assms(1)
proof (induction lines arbitrary: g0)
  case Nil then show ?case by simp
next
  case (Cons l ls)
  show ?case
  proof (cases "parse_road_line int_of float_of l")
    case (Inl e)
    then show ?thesis using parse_road_line_error[OF Inl] by simp
  next
    case (Inr r)
    then have "l \<noteq> raw_line" using assms(2) by auto
    then have "raw_line \<in> set ls" using Cons.prems by simp
    then show ?thesis using Cons.IH Inr by (cases r) (auto split: prod.splits)
  qed
qed

text \<open>
  C6. A roads source that contains a non-blank line whose first field is not parseable as
  an integer (such as \<^verbatim>\<open>abc,5,10,MainSt\<close>) makes the road graph loader fail with a
  \<^verbatim>\<open>ValueError\<close>: no adjacency structure is returned, whatever well-formed lines come
  before it.
\<close>

theorem load_graph_bad_source_id:
  assumes "raw_line \<in> set lines"
    and "strip raw_line \<noteq> []"
    and "int_of (strip (split_max 3 (strip raw_line) ! 0)) = None"
  shows "load_graph int_of float_of (Some lines) = Inl ValueError"
proof -
  have "parse_road_line int_of float_of raw_line = Inl ValueError"
    using assms(2) assms(3)
    by (rule parse_road_line_bad_id[where raw_line = raw_line and int_of = int_of])
  with assms(1) have "load_graph_loop int_of float_of lines Map.empty = Inl ValueError"
    by (rule load_graph_loop_bad_line)
  then show ?thesis by (simp add: load_graph_def)
qed

theorem load_graph_bad_source_id_witness:
  "''abc,5,10,MainSt'' \<in> set [''1,2,3.5,Elm St'', ''abc,5,10,MainSt'', ''2,3,1,Oak'']
   \<and> strip ''abc,5,10,MainSt'' \<noteq> []
   \<and> decimal_int (strip (split_max 3 (strip ''abc,5,10,MainSt'') ! 0)) = None
   \<and> load_graph decimal_int decimal_float
        (Some [''1,2,3.5,Elm St'', ''abc,5,10,MainSt'', ''2,3,1,Oak'']) = Inl ValueError"
proof -
  have a: "''abc,5,10,MainSt'' \<in> set [''1,2,3.5,Elm St'', ''abc,5,10,MainSt'', ''2,3,1,Oak'']"
    by simp
  have b: "strip ''abc,5,10,MainSt'' \<noteq> []" by (simp add: parse_eval)
  have c: "decimal_int (strip (split_max 3 (strip ''abc,5,10,MainSt'') ! 0)) = None"
    by (simp add: parse_eval)
  show ?thesis
    using a b c
      load_graph_bad_source_id[where raw_line = "''abc,5,10,MainSt''" and int_of = decimal_int
        and float_of = decimal_float
        and lines = "[''1,2,3.5,Elm St'', ''abc,5,10,MainSt'', ''2,3,1,Oak'']"]
    by blast
qed

section \<open>The route renderer\<close>





section \<open>Basic facts about the engine\<close>

lemma heappop_single: "heappop [x] = (x, [])"
  by (simp add: heappop_def)

text \<open>
  C5. For a source identifier S, the engine run with source = S and target = S returns a
  distance map that assigns S the distance 0, and the path reconstructor on the returned
  predecessor map with source = S and target = S returns the one-element sequence [S].
  (This holds whether or not S is a node of the graph.)
\<close>

theorem dijkstra_source_is_target:
  "\<exists>dist prev. dijkstra g S S = Some (dist, prev) \<and> dist S = Some (Fin 0)
      \<and> reconstruct_path prev S S = Some (Some [S])"
  by (simp add: dijkstra_def dijkstra_run_def dijkstra_init_def dijkstra_loop.simps
      heappop_single outdated_def dist_get_def reconstruct_path_def)

text \<open>
  C9. For a source identifier that is not a key of the adjacency structure, and any target
  other than the source, the engine returns: the distance map has the single entry
  source \<mapsto> 0 and the predecessor map is empty.
\<close>

theorem dijkstra_source_not_in_graph:
  assumes "source \<notin> dom g" and "target \<noteq> source"
  shows "dijkstra g source target = Some ([source \<mapsto> Fin 0], Map.empty)"
proof -
  have "graph_get g source = []"
    using assms(1) by (simp add: graph_get_def domIff)
  then show ?thesis
    using assms(2)
    by (simp add: dijkstra_def dijkstra_run_def dijkstra_init_def dijkstra_loop.simps
        heappop_single outdated_def dist_get_def)
qed

theorem dijkstra_source_not_in_graph_witness:
  "(5::int) \<notin> dom [1 \<mapsto> [(2::int, Fin 3, ''a'')], 2 \<mapsto> [(1, Fin 3, ''a'')]] \<and> (2::int) \<noteq> 5
   \<and> dijkstra [1 \<mapsto> [(2, Fin 3, ''a'')], 2 \<mapsto> [(1, Fin 3, ''a'')]] 5 2
       = Some ([5 \<mapsto> Fin 0], Map.empty)"
proof -
  have a: "(5::int) \<notin> dom [1 \<mapsto> [(2::int, Fin 3, ''a'')], 2 \<mapsto> [(1, Fin 3, ''a'')]]"
    by simp
  have b: "(2::int) \<noteq> 5" by simp
  show ?thesis
    using a b dijkstra_source_not_in_graph [OF a b] by simp
qed

section \<open>The engine does not change the graph\<close>

lemma relax_edge_graph: "graph (relax_edge cd u e st) = graph st"
  by (cases e) (simp add: relax_edge_def Let_def)

lemma relax_graph: "graph (relax cd u es st) = graph st"
  by (induction es arbitrary: st) (simp_all add: relax_edge_graph)

lemma dijkstra_loop_graph:
  assumes run: "dijkstra_loop t st = Some st'"
  shows "graph st' = graph st"
proof (rule dijkstra_loop.raw_induct[where P = "\<lambda>t st st'. graph st' = graph st", OF _ run],
    goal_cases)
  case (1 loop t st st')
  show ?case
  proof (cases "heap st = []")
    case True
    then show ?thesis using 1(2) by simp
  next
    case False
    obtain cd u rest where pop: "heappop (heap st) = ((cd, u), rest)"
      by (metis prod.exhaust)
    show ?thesis
      using 1(2) False pop 1(1)[of t "st\<lparr>heap := rest\<rparr>" st']
        1(1)[of t "relax cd u (graph_get (graph st) u) (st\<lparr>heap := rest\<rparr>)" st']
      by (auto simp: relax_graph Let_def split: if_splits)
  qed
qed

text \<open>
  C7. When a run of the engine returns, the graph it was handed is unchanged, and a second
  run on the graph as the first run left it, with the same source and target, returns the
  same distance map and the same predecessor map.
\<close>

theorem dijkstra_frame:
  assumes "dijkstra_run g source target = Some st"
  shows "graph st = g \<and> dijkstra (graph st) source target = Some (dist_map st, prev_map st)"
proof -
  have "graph st = graph (dijkstra_init g source)"
    using assms unfolding dijkstra_run_def by (rule dijkstra_loop_graph)
  then have "graph st = g" by (simp add: dijkstra_init_def)
  then show ?thesis using assms by (simp add: dijkstra_def)
qed

theorem dijkstra_frame_witness:
  "\<exists>st. dijkstra_run triangle_graph 1 3 = Some st
     \<and> graph st = triangle_graph
     \<and> dijkstra (graph st) 1 3 = Some (dist_map st, prev_map st)
     \<and> dist_map st 3 = Some (Fin 5)"
proof -
  obtain st where r: "dijkstra_run triangle_graph 1 3 = Some st" and d3: "dist_map st 3 = Some (Fin 5)"
    by (simp add: run_eval graph_get_def triangle_graph_def)
  show ?thesis using r d3 dijkstra_frame[OF r] by blast
qed

section \<open>The heap\<close>

lemma smallest_in: "smallest m xs \<in> insert m (set xs)"
  by (induction xs arbitrary: m) auto

lemma item_less_Fin:
  "item_less (Fin a, u) (Fin b, v) \<Longrightarrow> a \<le> b"
  "\<not> item_less (Fin a, u) (Fin b, v) \<Longrightarrow> b \<le> a"
  by (auto simp: item_less_def split: if_splits)

lemma smallest_le_start:
  assumes "\<forall>y\<in>insert m (set xs). \<exists>d. fst y = Fin d"
  shows "real_of (fst (smallest m xs)) \<le> real_of (fst m)"
  using assms
proof (induction xs arbitrary: m)
  case Nil then show ?case by simp
next
  case (Cons y ys)
  let ?m' = "if item_less y m then y else m"
  obtain a u b v where m: "m = (Fin a, u)" and y: "y = (Fin b, v)"
    using Cons.prems by (cases m, cases y) auto
  have "\<forall>z\<in>insert ?m' (set ys). \<exists>d. fst z = Fin d" using Cons.prems by auto
  then have "real_of (fst (smallest ?m' ys)) \<le> real_of (fst ?m')" by (rule Cons.IH)
  also have "\<dots> \<le> real_of (fst m)"
    using item_less_Fin(1)[of b v a u] by (auto simp: m y real_of_def)
  finally show ?case by simp
qed

lemma smallest_le:
  assumes "\<forall>y\<in>insert m (set xs). \<exists>d. fst y = Fin d" and "x \<in> set xs"
  shows "real_of (fst (smallest m xs)) \<le> real_of (fst x)"
  using assms
proof (induction xs arbitrary: m)
  case Nil then show ?case by simp
next
  case (Cons y ys)
  let ?m' = "if item_less y m then y else m"
  obtain a u b v where m: "m = (Fin a, u)" and y: "y = (Fin b, v)"
    using Cons.prems(1) by (cases m, cases y) auto
  have fin': "\<forall>z\<in>insert ?m' (set ys). \<exists>d. fst z = Fin d" using Cons.prems(1) by auto
  show ?case
  proof (cases "x = y")
    case True
    have "real_of (fst (smallest ?m' ys)) \<le> real_of (fst ?m')"
      using fin' by (rule smallest_le_start)
    also have "\<dots> \<le> real_of (fst y)"
      using item_less_Fin(2)[of b v a u] by (auto simp: m y real_of_def)
    finally show ?thesis using True by simp
  next
    case False
    then have "x \<in> set ys" using Cons.prems(2) by simp
    with fin' have "real_of (fst (smallest ?m' ys)) \<le> real_of (fst x)" by (rule Cons.IH)
    then show ?thesis by simp
  qed
qed

lemma heappop_props:
  assumes "h \<noteq> []" and "heappop h = (m, rest)" and "\<forall>y\<in>set h. \<exists>d. fst y = Fin d"
  shows "m \<in> set h" and "rest = remove1 m h"
    and "\<forall>x\<in>set h. real_of (fst m) \<le> real_of (fst x)"
proof -
  obtain a as where h: "h = a # as" using assms(1) by (cases h) auto
  have m: "m = smallest a as" and r: "rest = remove1 m h"
    using assms(2) by (auto simp: heappop_def h Let_def)
  have fin: "\<forall>y\<in>insert a (set as). \<exists>d. fst y = Fin d" using assms(3) h by simp
  show "m \<in> set h" using smallest_in[of a as] by (simp add: m h)
  show "rest = remove1 m h" by (rule r)
  show "\<forall>x\<in>set h. real_of (fst m) \<le> real_of (fst x)"
    using smallest_le[OF fin] smallest_le_start[OF fin] by (auto simp: m h)
qed

section \<open>The invariants hold along a run\<close>

lemma finite_nodes: "finite (dom g) \<Longrightarrow> finite (nodes g s)"
proof -
  assume f: "finite (dom g)"
  have "{v. \<exists>u w d. (v, w, d) \<in> set (graph_get g u)} \<subseteq> (\<Union>u\<in>dom g. fst ` set (graph_get g u))"
  proof
    fix v assume "v \<in> {v. \<exists>u w d. (v, w, d) \<in> set (graph_get g u)}"
    then obtain u w d where e: "(v, w, d) \<in> set (graph_get g u)" by blast
    then have "u \<in> dom g" by (cases "g u") (auto simp: graph_get_def)
    moreover have "v \<in> fst ` set (graph_get g u)" using e by force
    ultimately show "v \<in> (\<Union>u\<in>dom g. fst ` set (graph_get g u))" by blast
  qed
  moreover have "finite (\<Union>u\<in>dom g. fst ` set (graph_get g u))"
    using f by simp
  ultimately show ?thesis
    using f by (simp add: nodes_def finite_subset)
qed

lemma dist_inv_init: "dist_inv g s {} 0 (dijkstra_init g s)"
  using is_double_0 by (auto simp: dist_inv_def dijkstra_init_def nodes_def)

lemma dist_inv_heap_fin:
  assumes "dist_inv g s P b st"
  shows "\<forall>y\<in>set (heap st). \<exists>d. fst y = Fin d"
  using assms unfolding dist_inv_def by fastforce

lemma dist_inv_pop:
  assumes inv: "dist_inv g s P b st" and ne: "heap st \<noteq> []"
    and pop: "heappop (heap st) = ((x, u), rest)"
  obtains cd where "x = Fin cd" and "(Fin cd, u) \<in> set (heap st)"
    and "rest = remove1 (Fin cd, u) (heap st)"
    and "\<forall>d v. (Fin d, v) \<in> set (heap st) \<longrightarrow> cd \<le> d"
proof -
  note pp = heappop_props[OF ne pop dist_inv_heap_fin[OF inv]]
  obtain cd where cd: "x = Fin cd" using pp(1) dist_inv_heap_fin[OF inv] by fastforce
  have "\<forall>d v. (Fin d, v) \<in> set (heap st) \<longrightarrow> cd \<le> d"
    using pp(3) cd by (fastforce simp: real_of_def)
  then show ?thesis using that cd pp(1,2) by blast
qed

lemma outdated_Fin:
  assumes "dist_map st u = Some (Fin d')"
  shows "outdated (Fin cd) (dist_map st) u \<longleftrightarrow> d' < cd"
  using assms by (simp add: outdated_def dist_get_def)

lemma dist_inv_pop_outdated:
  assumes inv: "dist_inv g s {} b st"
    and m: "(Fin cd, u) \<in> set (heap st)"
    and r: "rest = remove1 (Fin cd, u) (heap st)"
    and out: "outdated (Fin cd) (dist_map st) u"
  shows "dist_inv g s {} b (st\<lparr>heap := rest\<rparr>)"
proof -
  have dis: "distinct (heap st)" using inv by (simp add: dist_inv_def)
  have sr: "set rest = set (heap st) - {(Fin cd, u)}" using dis r by simp
  obtain d' where d': "dist_map st u = Some (Fin d')"
    using inv m unfolding dist_inv_def by blast
  have nu: "dist_map st u \<noteq> Some (Fin cd)" using out d' by (simp add: outdated_Fin)
  have keep: "\<And>v d. dist_map st v = Some (Fin d) \<Longrightarrow> (Fin d, v) \<notin> set rest \<Longrightarrow> (Fin d, v) \<notin> set (heap st)"
    using sr nu by auto
  have h1: "\<And>x v. (x, v) \<in> set rest \<Longrightarrow>
      (\<exists>d d'. x = Fin d \<and> b \<le> d \<and> dist_map st v = Some (Fin d') \<and> d' \<le> d)"
  proof -
    fix x v assume "(x, v) \<in> set rest"
    then have i: "(x, v) \<in> set (heap st)" using sr by simp
    then show "\<exists>d d'. x = Fin d \<and> b \<le> d \<and> dist_map st v = Some (Fin d') \<and> d' \<le> d"
      using inv unfolding dist_inv_def by blast
  qed
  have le: "\<And>v d. dist_map st v = Some (Fin d) \<Longrightarrow> (Fin d, v) \<notin> set rest \<Longrightarrow> d \<le> b"
  proof -
    fix v d assume a: "dist_map st v = Some (Fin d)" "(Fin d, v) \<notin> set rest"
    then have "(Fin d, v) \<notin> set (heap st)" by (rule keep)
    then show "d \<le> b" using inv a unfolding dist_inv_def by blast
  qed
  have s2: "\<And>x dx v w d c. dist_map st x = Some (Fin dx) \<Longrightarrow> (Fin dx, x) \<notin> set rest \<Longrightarrow>
      (v, w, d) \<in> set (graph_get g x) \<Longrightarrow> fadd (Fin dx) w = Fin c \<Longrightarrow>
      (\<exists>dv. dist_map st v = Some (Fin dv) \<and> dv \<le> c)"
  proof -
    fix x dx v w d c
    assume a: "dist_map st x = Some (Fin dx)" "(Fin dx, x) \<notin> set rest"
      "(v, w, d) \<in> set (graph_get g x)" "fadd (Fin dx) w = Fin c"
    then have "(Fin dx, x) \<notin> set (heap st)" using keep by blast
    then show "\<exists>dv. dist_map st v = Some (Fin dv) \<and> dv \<le> c"
      using inv a unfolding dist_inv_def by blast
  qed
  have dr: "distinct rest" using dis r by simp
  have rest0: "graph st = g" "dist_map st s = Some (Fin 0)"
    "\<forall>v x. dist_map st v = Some x \<longrightarrow> (\<exists>d. x = Fin d \<and> 0 \<le> d \<and> is_double d)"
    "dom (dist_map st) \<subseteq> nodes g s"
    using inv unfolding dist_inv_def by auto
  show ?thesis
    unfolding dist_inv_def
    using rest0 dr le h1 s2 by simp
qed

lemma dist_inv_pop_current:
  assumes inv: "dist_inv g s {} b st"
    and m: "(Fin cd, u) \<in> set (heap st)"
    and r: "rest = remove1 (Fin cd, u) (heap st)"
    and least: "\<forall>d v. (Fin d, v) \<in> set (heap st) \<longrightarrow> cd \<le> d"
    and out: "\<not> outdated (Fin cd) (dist_map st) u"
  shows "dist_map st u = Some (Fin cd)" and "(Fin cd, u) \<notin> set rest"
    and "dist_inv g s ({u} \<times> set (graph_get g u)) cd (st\<lparr>heap := rest\<rparr>)"
    and "\<And>x. settled st x \<Longrightarrow> settled (st\<lparr>heap := rest\<rparr>) x"
    and "\<not> settled st u"
proof -
  have dis: "distinct (heap st)" using inv by (simp add: dist_inv_def)
  have sr: "set rest = set (heap st) - {(Fin cd, u)}" using dis r by simp
  obtain d' where d': "dist_map st u = Some (Fin d')" "d' \<le> cd" and bcd: "b \<le> cd"
    using inv m unfolding dist_inv_def by blast
  show du: "dist_map st u = Some (Fin cd)" using d' out by (simp add: outdated_Fin)
  show "(Fin cd, u) \<notin> set rest" using sr by simp
  show "\<not> settled st u" using du m by (auto simp: settled_def)
  show "\<And>x. settled st x \<Longrightarrow> settled (st\<lparr>heap := rest\<rparr>) x"
    using sr by (auto simp: settled_def)
  have old: "\<And>v d. dist_map st v = Some (Fin d) \<Longrightarrow> (Fin d, v) \<notin> set rest \<Longrightarrow> v \<noteq> u \<Longrightarrow> (Fin d, v) \<notin> set (heap st)"
    using sr by auto
  have le: "\<And>v d. dist_map st v = Some (Fin d) \<Longrightarrow> (Fin d, v) \<notin> set rest \<Longrightarrow> d \<le> cd"
  proof -
    fix v d assume a: "dist_map st v = Some (Fin d)" "(Fin d, v) \<notin> set rest"
    show "d \<le> cd"
    proof (cases "(Fin d, v) = (Fin cd, u)")
      case True then show ?thesis by simp
    next
      case False
      then have "(Fin d, v) \<notin> set (heap st)" using a sr by auto
      then have "d \<le> b" using inv a unfolding dist_inv_def by blast
      then show ?thesis using bcd by simp
    qed
  qed
  have h1: "\<And>x v. (x, v) \<in> set rest \<Longrightarrow>
      (\<exists>d d'. x = Fin d \<and> cd \<le> d \<and> dist_map st v = Some (Fin d') \<and> d' \<le> d)"
  proof -
    fix x v assume "(x, v) \<in> set rest"
    then have i: "(x, v) \<in> set (heap st)" using sr by simp
    then obtain d d' where dd: "x = Fin d" "dist_map st v = Some (Fin d')" "d' \<le> d"
      using inv unfolding dist_inv_def by blast
    have "cd \<le> d" using least i dd(1) by blast
    then show "\<exists>d d'. x = Fin d \<and> cd \<le> d \<and> dist_map st v = Some (Fin d') \<and> d' \<le> d"
      using dd by blast
  qed
  have s2: "\<And>x dx v w d c. dist_map st x = Some (Fin dx) \<Longrightarrow> (Fin dx, x) \<notin> set rest \<Longrightarrow>
      (v, w, d) \<in> set (graph_get g x) \<Longrightarrow> (x, (v, w, d)) \<notin> {u} \<times> set (graph_get g u) \<Longrightarrow>
      fadd (Fin dx) w = Fin c \<Longrightarrow>
      (\<exists>dv. dist_map st v = Some (Fin dv) \<and> dv \<le> c)"
  proof -
    fix x dx v w d c
    assume a: "dist_map st x = Some (Fin dx)" "(Fin dx, x) \<notin> set rest"
      "(v, w, d) \<in> set (graph_get g x)" "(x, (v, w, d)) \<notin> {u} \<times> set (graph_get g u)"
      "fadd (Fin dx) w = Fin c"
    then have "x \<noteq> u" by auto
    then have "(Fin dx, x) \<notin> set (heap st)" using old a by blast
    then show "\<exists>dv. dist_map st v = Some (Fin dv) \<and> dv \<le> c"
      using inv a unfolding dist_inv_def by blast
  qed
  have dr: "distinct rest" using dis r by simp
  have rest0: "graph st = g" "dist_map st s = Some (Fin 0)"
    "\<forall>v x. dist_map st v = Some x \<longrightarrow> (\<exists>d. x = Fin d \<and> 0 \<le> d \<and> is_double d)"
    "dom (dist_map st) \<subseteq> nodes g s"
    using inv unfolding dist_inv_def by auto
  show "dist_inv g s ({u} \<times> set (graph_get g u)) cd (st\<lparr>heap := rest\<rparr>)"
    unfolding dist_inv_def
    using rest0 dr le h1 s2 by simp
qed

lemma improves_Fin:
  assumes "\<forall>v x. dm v = Some x \<longrightarrow> (\<exists>d. x = Fin d)"
  shows "improves (Fin c) dm v \<longleftrightarrow> (dm v = None \<or> (\<exists>dv. dm v = Some (Fin dv) \<and> c < dv))"
proof (cases "dm v")
  case None
  then show ?thesis by (simp add: improves_def dist_get_def)
next
  case (Some x)
  then obtain d where "x = Fin d" using assms by blast
  then show ?thesis using Some by (simp add: improves_def dist_get_def)
qed

lemma improves_PInf: "\<not> improves PInf dm v"
  by (cases "dist_get dm v") (simp_all add: improves_def)

lemma relax_edge_dist_inv:
  assumes inv: "dist_inv g s P b st"
    and du: "dist_map st u = Some (Fin b)"
    and nh: "(Fin b, u) \<notin> set (heap st)"
    and e: "(v, w, d) \<in> set (graph_get g u)"
    and nn: "nonneg g"
  shows "dist_inv g s (P - {(u, (v, w, d))}) b (relax_edge (Fin b) u (v, w, d) st)"
    and "dist_map (relax_edge (Fin b) u (v, w, d) st) u = Some (Fin b)"
    and "(Fin b, u) \<notin> set (heap (relax_edge (Fin b) u (v, w, d) st))"
    and "\<And>x. settled st x \<Longrightarrow> settled (relax_edge (Fin b) u (v, w, d) st) x"
proof -
  let ?st' = "relax_edge (Fin b) u (v, w, d) st"
  have w0: "nonneg_weight w" using nn e by (auto simp: nonneg_def)
  have g: "graph st = g" and d0: "dist_map st s = Some (Fin 0)"
    and dfin: "\<And>x y. dist_map st x = Some y \<Longrightarrow> \<exists>dx. y = Fin dx \<and> 0 \<le> dx \<and> is_double dx"
    and h1: "\<And>y x. (y, x) \<in> set (heap st) \<Longrightarrow>
        \<exists>dx d'. y = Fin dx \<and> b \<le> dx \<and> dist_map st x = Some (Fin d') \<and> d' \<le> dx"
    and dis: "distinct (heap st)"
    and s1: "\<And>x dx. dist_map st x = Some (Fin dx) \<Longrightarrow> (Fin dx, x) \<notin> set (heap st) \<Longrightarrow> dx \<le> b"
    and s2: "\<And>x dx y wy dy c. dist_map st x = Some (Fin dx) \<Longrightarrow> (Fin dx, x) \<notin> set (heap st) \<Longrightarrow>
          (y, wy, dy) \<in> set (graph_get g x) \<Longrightarrow> (x, (y, wy, dy)) \<notin> P \<Longrightarrow>
          fadd (Fin dx) wy = Fin c \<Longrightarrow>
          (\<exists>dv. dist_map st y = Some (Fin dv) \<and> dv \<le> c)"
    and n: "dom (dist_map st) \<subseteq> nodes g s"
    using inv unfolding dist_inv_def by blast+
  have b0: "0 \<le> b" and bd: "is_double b" using dfin[OF du] by auto
  have allfin: "\<forall>v x. dist_map st v = Some x \<longrightarrow> (\<exists>d. x = Fin d)" using dfin by blast
  have unchanged: "dist_inv g s (P - {(u, (v, w, d))}) b st \<and>
      dist_map st u = Some (Fin b) \<and> (Fin b, u) \<notin> set (heap st) \<and> (\<forall>x. settled st x \<longrightarrow> settled st x)"
    if edge_ok: "\<And>c. fadd (Fin b) w = Fin c \<Longrightarrow> \<exists>dv. dist_map st v = Some (Fin dv) \<and> dv \<le> c"
  proof -
    have s2': "\<And>x dx y wy dy c. dist_map st x = Some (Fin dx) \<Longrightarrow> (Fin dx, x) \<notin> set (heap st) \<Longrightarrow>
          (y, wy, dy) \<in> set (graph_get g x) \<Longrightarrow> (x, (y, wy, dy)) \<notin> P - {(u, (v, w, d))} \<Longrightarrow>
          fadd (Fin dx) wy = Fin c \<Longrightarrow>
          (\<exists>dv. dist_map st y = Some (Fin dv) \<and> dv \<le> c)"
    proof -
      fix x dx y wy dy c
      assume a: "dist_map st x = Some (Fin dx)" "(Fin dx, x) \<notin> set (heap st)"
          "(y, wy, dy) \<in> set (graph_get g x)" "(x, (y, wy, dy)) \<notin> P - {(u, (v, w, d))}"
          "fadd (Fin dx) wy = Fin c"
      show "\<exists>dv. dist_map st y = Some (Fin dv) \<and> dv \<le> c"
      proof (cases "(x, (y, wy, dy)) = (u, (v, w, d))")
        case True
        then have "dx = b" using a(1) du by simp
        then show ?thesis using edge_ok[of c] a(5) True by simp
      next
        case False
        then have "(x, (y, wy, dy)) \<notin> P" using a by blast
        then show ?thesis using s2 a by blast
      qed
    qed
    have "dist_inv g s (P - {(u, (v, w, d))}) b st"
      unfolding dist_inv_def using g d0 dfin h1 dis s1 s2' n by simp
    then show ?thesis using du nh by simp
  qed
  have all: "dist_inv g s (P - {(u, (v, w, d))}) b ?st' \<and>
      dist_map ?st' u = Some (Fin b) \<and> (Fin b, u) \<notin> set (heap ?st') \<and> (\<forall>x. settled st x \<longrightarrow> settled ?st' x)"
  proof (cases "improves (fadd (Fin b) w) (dist_map st) v")
    case False
    have same: "?st' = st" using False by (simp add: relax_edge_def Let_def)
    have "\<And>c. fadd (Fin b) w = Fin c \<Longrightarrow> \<exists>dv. dist_map st v = Some (Fin dv) \<and> dv \<le> c"
    proof -
      fix c assume c: "fadd (Fin b) w = Fin c"
      then have ni: "\<not> improves (Fin c) (dist_map st) v" using False by simp
      then obtain y where y: "dist_map st v = Some y"
        unfolding improves_Fin[OF allfin] by (cases "dist_map st v") auto
      then obtain dv where dv: "y = Fin dv" using allfin by blast
      have "\<not> c < dv" using ni y dv unfolding improves_Fin[OF allfin] by simp
      then show "\<exists>dv. dist_map st v = Some (Fin dv) \<and> dv \<le> c" using y dv by auto
    qed
    from unchanged[OF this] show ?thesis unfolding same .
  next
    case True
    obtain c where c: "fadd (Fin b) w = Fin c"
      using fadd_nonneg_cases[OF b0 w0] True improves_PInf by auto
    note cg = fadd_grows[OF b0 bd w0 c]
    have st': "?st' = st\<lparr>dist_map := (dist_map st)(v \<mapsto> Fin c),
                prev_map := (prev_map st)(v \<mapsto> u),
                heap := heap st @ [(Fin c, v)]\<rparr>"
      using True by (simp add: relax_edge_def heappush_def Let_def c)
    have imp: "\<And>dv. dist_map st v = Some (Fin dv) \<Longrightarrow> c < dv"
      using True unfolding c improves_Fin[OF allfin] by auto
    have vu: "v \<noteq> u" using imp[of b] du cg(1) by auto
    have vs: "v \<noteq> s" using imp[of 0] d0 cg(3) by auto
    have vuns: "\<And>dv. dist_map st v = Some (Fin dv) \<Longrightarrow> (Fin dv, v) \<in> set (heap st)"
    proof (rule ccontr)
      fix dv assume a: "dist_map st v = Some (Fin dv)" "(Fin dv, v) \<notin> set (heap st)"
      then have "dv \<le> b" using s1 by blast
      then show False using imp[OF a(1)] cg(1) by simp
    qed
    have fresh: "(Fin c, v) \<notin> set (heap st)"
    proof
      assume "(Fin c, v) \<in> set (heap st)"
      then obtain d' where "dist_map st v = Some (Fin d')" "d' \<le> c" using h1 by blast
      then show False using imp by fastforce
    qed
    have H1: "\<And>y x. (y, x) \<in> set (heap st @ [(Fin c, v)]) \<Longrightarrow>
        \<exists>dx d'. y = Fin dx \<and> b \<le> dx \<and> ((dist_map st)(v \<mapsto> Fin c)) x = Some (Fin d') \<and> d' \<le> dx"
    proof -
      fix y x assume a: "(y, x) \<in> set (heap st @ [(Fin c, v)])"
      show "\<exists>dx d'. y = Fin dx \<and> b \<le> dx \<and> ((dist_map st)(v \<mapsto> Fin c)) x = Some (Fin d') \<and> d' \<le> dx"
      proof (cases "(y, x) = (Fin c, v)")
        case True then show ?thesis using cg(1) by auto
      next
        case False
        then have i: "(y, x) \<in> set (heap st)" using a by auto
        then obtain dx d' where d': "y = Fin dx" "b \<le> dx" "dist_map st x = Some (Fin d')" "d' \<le> dx"
          using h1 by blast
        show ?thesis
        proof (cases "x = v")
          case True
          then have "c < d'" using imp d' by simp
          then show ?thesis using True d' by auto
        next
          case False then show ?thesis using d' by auto
        qed
      qed
    qed
    have S1: "\<And>x dx. ((dist_map st)(v \<mapsto> Fin c)) x = Some (Fin dx) \<Longrightarrow>
        (Fin dx, x) \<notin> set (heap st @ [(Fin c, v)]) \<Longrightarrow>
        x \<noteq> v \<and> dist_map st x = Some (Fin dx) \<and> (Fin dx, x) \<notin> set (heap st)"
      by (auto split: if_splits)
    have S2: "\<And>x dx y wy dy c2. ((dist_map st)(v \<mapsto> Fin c)) x = Some (Fin dx) \<Longrightarrow>
          (Fin dx, x) \<notin> set (heap st @ [(Fin c, v)]) \<Longrightarrow>
          (y, wy, dy) \<in> set (graph_get g x) \<Longrightarrow> (x, (y, wy, dy)) \<notin> P - {(u, (v, w, d))} \<Longrightarrow>
          fadd (Fin dx) wy = Fin c2 \<Longrightarrow>
          (\<exists>dv. ((dist_map st)(v \<mapsto> Fin c)) y = Some (Fin dv) \<and> dv \<le> c2)"
    proof -
      fix x dx y wy dy c2
      assume a: "((dist_map st)(v \<mapsto> Fin c)) x = Some (Fin dx)"
          "(Fin dx, x) \<notin> set (heap st @ [(Fin c, v)])"
          "(y, wy, dy) \<in> set (graph_get g x)" "(x, (y, wy, dy)) \<notin> P - {(u, (v, w, d))}"
          "fadd (Fin dx) wy = Fin c2"
      have x: "x \<noteq> v" "dist_map st x = Some (Fin dx)" "(Fin dx, x) \<notin> set (heap st)"
        using S1[OF a(1,2)] by auto
      show "\<exists>dv. ((dist_map st)(v \<mapsto> Fin c)) y = Some (Fin dv) \<and> dv \<le> c2"
      proof (cases "(x, (y, wy, dy)) = (u, (v, w, d))")
        case True
        then have "dx = b" using x(2) du by simp
        then have "c2 = c" using a(5) c True by simp
        then show ?thesis using True by auto
      next
        case False
        then have "(x, (y, wy, dy)) \<notin> P" using a by blast
        then obtain dv where dv: "dist_map st y = Some (Fin dv)" "dv \<le> c2"
          using s2 x a by blast
        show ?thesis
        proof (cases "y = v")
          case True
          then have "c < dv" using imp dv by simp
          then show ?thesis using True dv by auto
        next
          case False then show ?thesis using dv by auto
        qed
      qed
    qed
    have vn: "v \<in> nodes g s" using e by (auto simp: nodes_def)
    have f: "graph ?st' = g" "dist_map ?st' = (dist_map st)(v \<mapsto> Fin c)"
      "heap ?st' = heap st @ [(Fin c, v)]"
      using g by (simp_all add: st')
    have c2: "((dist_map st)(v \<mapsto> Fin c)) s = Some (Fin 0)" using d0 vs by simp
    have c3: "\<forall>x y. ((dist_map st)(v \<mapsto> Fin c)) x = Some y \<longrightarrow>
        (\<exists>dx. y = Fin dx \<and> 0 \<le> dx \<and> is_double dx)"
      using dfin cg(2,3) by (simp split: if_splits)
    have c5: "distinct (heap st @ [(Fin c, v)])" using dis fresh by simp
    have c6: "\<forall>x dx. ((dist_map st)(v \<mapsto> Fin c)) x = Some (Fin dx) \<longrightarrow>
        (Fin dx, x) \<notin> set (heap st @ [(Fin c, v)]) \<longrightarrow> dx \<le> b"
      using S1 s1 by blast
    have c8: "dom ((dist_map st)(v \<mapsto> Fin c)) \<subseteq> nodes g s" using n vn by simp
    have A: "dist_inv g s (P - {(u, (v, w, d))}) b ?st'"
      unfolding dist_inv_def f
      using c2 c3 H1 c5 c6 S2 c8 by blast
    have B: "dist_map ?st' u = Some (Fin b)" using vu du by (simp add: st')
    have C: "(Fin b, u) \<notin> set (heap ?st')" using vu nh by (simp add: st')
    have D: "\<forall>x. settled st x \<longrightarrow> settled ?st' x"
    proof (intro allI impI)
      fix x assume "settled st x"
      then obtain y where y: "dist_map st x = Some y" "(y, x) \<notin> set (heap st)"
        by (auto simp: settled_def)
      obtain dx where dx: "y = Fin dx" using dfin[OF y(1)] by blast
      have "x \<noteq> v" using vuns[of dx] y dx by auto
      then show "settled ?st' x" using y by (auto simp: settled_def st')
    qed
    show ?thesis
      using A B C D by blast
  qed
  show "dist_inv g s (P - {(u, (v, w, d))}) b ?st'"
    and "dist_map ?st' u = Some (Fin b)"
    and "(Fin b, u) \<notin> set (heap ?st')"
    and "\<And>x. settled st x \<Longrightarrow> settled ?st' x"
    using all by blast+
qed

lemma is_path_snoc:
  "is_path g s (p @ [e]) v \<longleftrightarrow> (\<exists>u. is_path g s p u \<and> e \<in> set (graph_get g u) \<and> fst e = v)"
  by (induction p arbitrary: s) auto

lemma path_cost_snoc: "path_cost (p @ [e]) = fadd (path_cost p) (fst (snd e))"
  by (simp add: path_cost_def)

lemma path_cost_Nil: "path_cost [] = Fin 0"
  by (simp add: path_cost_def)

lemma fadd_Fin_left:
  assumes "fadd x w = Fin c"
  shows "\<exists>a. x = Fin a"
  using assms by (cases x; cases w) simp_all

lemma path_cost_cases:
  assumes nn: "nonneg g"
  shows "is_path g s p x \<Longrightarrow>
     path_cost p = PInf \<or> (\<exists>c. path_cost p = Fin c \<and> 0 \<le> c \<and> is_double c)"
proof (induction p arbitrary: x rule: rev_induct)
  case Nil
  show ?case using is_double_0 by (simp add: path_cost_Nil)
next
  case (snoc e p)
  obtain v w d where e: "e = (v, w, d)" by (cases e) auto
  obtain u where u: "is_path g s p u" "(v, w, d) \<in> set (graph_get g u)"
    using snoc.prems unfolding is_path_snoc e by auto
  have w0: "nonneg_weight w" using nn u(2) by (auto simp: nonneg_def)
  have pc: "path_cost (p @ [e]) = fadd (path_cost p) w" by (simp add: path_cost_snoc e)
  from snoc.IH[OF u(1)] show ?case
  proof
    assume pinf: "path_cost p = PInf"
    have "fadd PInf w = PInf" using w0 by (cases w) (simp_all add: nonneg_weight_def)
    then have "path_cost (p @ [e]) = PInf" unfolding pc pinf .
    then show ?thesis by simp
  next
    assume "\<exists>c. path_cost p = Fin c \<and> 0 \<le> c \<and> is_double c"
    then obtain c where c: "path_cost p = Fin c" "0 \<le> c" "is_double c" by blast
    from fadd_nonneg_cases[OF c(2) w0] show ?thesis
    proof
      assume "fadd (Fin c) w = PInf"
      then show ?thesis unfolding pc c(1) by simp
    next
      assume "\<exists>c'. fadd (Fin c) w = Fin c'"
      then obtain c' where c': "fadd (Fin c) w = Fin c'" by blast
      show ?thesis unfolding pc c(1) using c' fadd_grows(2,3)[OF c(2,3) w0 c'] by simp
    qed
  qed
qed

lemma path_inv_init: "path_inv g s (dijkstra_init g s)"
proof -
  have "is_path g s [] s \<and> path_cost [] = Fin 0" by (simp add: path_cost_Nil)
  then have "\<exists>p. is_path g s p s \<and> path_cost p = Fin 0" by blast
  then show ?thesis
    unfolding path_inv_def dijkstra_init_def by (auto split: if_splits)
qed

lemma prev_inv_init: "prev_inv s (dijkstra_init g s)"
  by (auto simp: prev_inv_def dijkstra_init_def intro: reaches_source split: if_splits)

lemma path_inv_heap: "path_inv g s st \<Longrightarrow> path_inv g s (st\<lparr>heap := h\<rparr>)"
  by (simp add: path_inv_def)

lemma prev_inv_heap:
  assumes "prev_inv s st" and "set h \<subseteq> set (heap st)"
  shows "prev_inv s (st\<lparr>heap := h\<rparr>)"
proof -
  have "\<And>x. settled st x \<Longrightarrow> settled (st\<lparr>heap := h\<rparr>) x"
    using assms(2) by (auto simp: settled_def)
  then show ?thesis using assms(1) unfolding prev_inv_def by simp
qed

lemma relax_edge_path_inv:
  assumes inv: "path_inv g s st"
    and du: "dist_map st u = Some cd"
    and e: "(v, w, d) \<in> set (graph_get g u)"
  shows "path_inv g s (relax_edge cd u (v, w, d) st)"
proof (cases "improves (fadd cd w) (dist_map st) v")
  case False
  then show ?thesis using inv by (simp add: relax_edge_def Let_def)
next
  case True
  obtain p where p: "is_path g s p u" "path_cost p = cd"
    using inv du unfolding path_inv_def by blast
  have "is_path g s (p @ [(v, w, d)]) v" using p e by (auto simp: is_path_snoc)
  moreover have "path_cost (p @ [(v, w, d)]) = fadd cd w" using p by (simp add: path_cost_snoc)
  ultimately have new: "\<exists>q. is_path g s q v \<and> path_cost q = fadd cd w" by blast
  have dm: "dist_map (relax_edge cd u (v, w, d) st) = (dist_map st)(v \<mapsto> fadd cd w)"
    using True by (simp add: relax_edge_def Let_def)
  show ?thesis
    unfolding path_inv_def dm
    using inv new by (auto simp: path_inv_def)
qed

lemma reaches_upd_settled:
  assumes r: "reaches prev s x"
    and st: "\<And>a c. prev a = Some c \<Longrightarrow> S c"
    and sx: "S x" and nv: "\<not> S v"
  shows "reaches (prev(v \<mapsto> u)) s x"
  using r sx
proof (induction rule: reaches.induct)
  case reaches_source
  show ?case by (rule reaches.reaches_source)
next
  case (reaches_step a c)
  have "a \<noteq> v" using reaches_step.prems nv by auto
  then have "(prev(v \<mapsto> u)) a = Some c" using reaches_step.hyps by simp
  moreover have "reaches (prev(v \<mapsto> u)) s c" using reaches_step.IH st[OF reaches_step.hyps(1)] by blast
  ultimately show ?case by (rule reaches.reaches_step)
qed

lemma reaches_upd:
  assumes r: "reaches prev s x"
    and ru: "reaches (prev(v \<mapsto> u)) s u"
  shows "reaches (prev(v \<mapsto> u)) s x"
  using r
proof (induction rule: reaches.induct)
  case reaches_source
  show ?case by (rule reaches.reaches_source)
next
  case (reaches_step a c)
  show ?case
  proof (cases "a = v")
    case True
    then have "(prev(v \<mapsto> u)) a = Some u" by simp
    then show ?thesis using ru by (rule reaches.reaches_step)
  next
    case False
    then have "(prev(v \<mapsto> u)) a = Some c" using reaches_step.hyps by simp
    then show ?thesis using reaches_step.IH by (rule reaches.reaches_step)
  qed
qed

lemma relax_edge_prev_inv:
  assumes dinv: "dist_inv g s P b st"
    and inv: "prev_inv s st"
    and du: "dist_map st u = Some (Fin b)"
    and nh: "(Fin b, u) \<notin> set (heap st)"
    and e: "(v, w, d) \<in> set (graph_get g u)"
    and nn: "nonneg g"
  shows "prev_inv s (relax_edge (Fin b) u (v, w, d) st)"
proof (cases "improves (fadd (Fin b) w) (dist_map st) v")
  case False
  then show ?thesis using inv by (simp add: relax_edge_def Let_def)
next
  case True
  let ?st' = "relax_edge (Fin b) u (v, w, d) st"
  have w0: "nonneg_weight w" using nn e by (auto simp: nonneg_def)
  have d0: "dist_map st s = Some (Fin 0)"
    and dfin: "\<And>x y. dist_map st x = Some y \<Longrightarrow> \<exists>dx. y = Fin dx \<and> 0 \<le> dx \<and> is_double dx"
    and s1: "\<And>x dx. dist_map st x = Some (Fin dx) \<Longrightarrow> (Fin dx, x) \<notin> set (heap st) \<Longrightarrow> dx \<le> b"
    using dinv unfolding dist_inv_def by blast+
  have b0: "0 \<le> b" and bd: "is_double b" using dfin[OF du] by auto
  have allfin: "\<forall>v x. dist_map st v = Some x \<longrightarrow> (\<exists>d. x = Fin d)" using dfin by blast
  obtain c where c: "fadd (Fin b) w = Fin c"
    using fadd_nonneg_cases[OF b0 w0] True improves_PInf by auto
  note cg = fadd_grows[OF b0 bd w0 c]
  have st': "?st' = st\<lparr>dist_map := (dist_map st)(v \<mapsto> Fin c),
                prev_map := (prev_map st)(v \<mapsto> u),
                heap := heap st @ [(Fin c, v)]\<rparr>"
    using True by (simp add: relax_edge_def heappush_def Let_def c)
  have f: "dist_map ?st' = (dist_map st)(v \<mapsto> Fin c)"
      "prev_map ?st' = (prev_map st)(v \<mapsto> u)"
    by (simp_all add: st')
  have imp: "\<And>dv. dist_map st v = Some (Fin dv) \<Longrightarrow> c < dv"
    using True unfolding c improves_Fin[OF allfin] by auto
  have vs: "v \<noteq> s" using imp[of 0] d0 cg(3) by auto
  have vns: "\<not> settled st v"
  proof
    assume "settled st v"
    then obtain y where y: "dist_map st v = Some y" "(y, v) \<notin> set (heap st)"
      by (auto simp: settled_def)
    obtain dv where dv: "y = Fin dv" using dfin[OF y(1)] by blast
    have "dv \<le> b" using s1 y dv by blast
    then show False using imp[of dv] y(1) dv cg(1) by simp
  qed
  have us: "settled st u" using du nh by (auto simp: settled_def)
  have keep: "\<And>x. settled st x \<Longrightarrow> settled ?st' x"
    using relax_edge_dist_inv(4)[OF dinv du nh e nn] .
  have p1: "prev_map st s = None"
    and p2: "\<And>a c. prev_map st a = Some c \<Longrightarrow> settled st c"
    and p3: "\<And>x. dist_map st x \<noteq> None \<Longrightarrow> reaches (prev_map st) s x"
    and p4: "dom (prev_map st) \<subseteq> dom (dist_map st)"
    using inv unfolding prev_inv_def by blast+
  have ru: "reaches ((prev_map st)(v \<mapsto> u)) s u"
    using reaches_upd_settled[of "prev_map st" s u "settled st" v u] p3 du p2 us vns by auto
  have q1: "((prev_map st)(v \<mapsto> u)) s = None" using p1 vs by simp
  have q2: "\<forall>a c. ((prev_map st)(v \<mapsto> u)) a = Some c \<longrightarrow> settled ?st' c"
    using p2 us keep by (auto split: if_splits)
  have q3: "\<forall>x. ((dist_map st)(v \<mapsto> Fin c)) x \<noteq> None \<longrightarrow> reaches ((prev_map st)(v \<mapsto> u)) s x"
  proof (intro allI impI)
    fix x assume a: "((dist_map st)(v \<mapsto> Fin c)) x \<noteq> None"
    show "reaches ((prev_map st)(v \<mapsto> u)) s x"
    proof (cases "x = v")
      case True
      have "((prev_map st)(v \<mapsto> u)) v = Some u" by simp
      then show ?thesis using ru True by (auto intro: reaches.reaches_step)
    next
      case False
      then have "dist_map st x \<noteq> None" using a by simp
      then have "reaches (prev_map st) s x" by (rule p3)
      then show ?thesis using ru by (rule reaches_upd)
    qed
  qed
  have q4: "dom ((prev_map st)(v \<mapsto> u)) \<subseteq> dom ((dist_map st)(v \<mapsto> Fin c))"
    using p4 by auto
  show ?thesis
    unfolding prev_inv_def f using q1 q2 q3 q4 by blast
qed

lemma relax_inv:
  assumes nn: "nonneg g"
  shows "set es \<subseteq> set (graph_get g u) \<Longrightarrow> dist_inv g s P b st \<Longrightarrow> path_inv g s st \<Longrightarrow>
     prev_inv s st \<Longrightarrow> dist_map st u = Some (Fin b) \<Longrightarrow> (Fin b, u) \<notin> set (heap st) \<Longrightarrow>
     dist_inv g s (P - {u} \<times> set es) b (relax (Fin b) u es st) \<and>
     path_inv g s (relax (Fin b) u es st) \<and> prev_inv s (relax (Fin b) u es st) \<and>
     dist_map (relax (Fin b) u es st) u = Some (Fin b) \<and>
     (Fin b, u) \<notin> set (heap (relax (Fin b) u es st)) \<and>
     (\<forall>x. settled st x \<longrightarrow> settled (relax (Fin b) u es st) x)"
proof (induction es arbitrary: st P)
  case Nil
  then show ?case by simp
next
  case (Cons e es)
  obtain v w d where e: "e = (v, w, d)" by (cases e) auto
  let ?st1 = "relax_edge (Fin b) u (v, w, d) st"
  have ein: "(v, w, d) \<in> set (graph_get g u)" using Cons.prems(1) e by simp
  have sub: "set es \<subseteq> set (graph_get g u)" using Cons.prems(1) by simp
  note step = relax_edge_dist_inv[OF Cons.prems(2) Cons.prems(5) Cons.prems(6) ein nn]
  have pi: "path_inv g s ?st1"
    by (rule relax_edge_path_inv[OF Cons.prems(3) Cons.prems(5) ein])
  have pr: "prev_inv s ?st1"
    by (rule relax_edge_prev_inv[OF Cons.prems(2) Cons.prems(4) Cons.prems(5) Cons.prems(6) ein nn])
  note ih = Cons.IH[OF sub step(1) pi pr step(2) step(3)]
  have seteq: "P - {(u, (v, w, d))} - {u} \<times> set es = P - {u} \<times> set (e # es)"
    using e by auto
  have r: "relax (Fin b) u (e # es) st = relax (Fin b) u es ?st1" by (simp add: e)
  show ?case
    unfolding r using ih step(4) unfolding seteq by blast
qed

lemma path_lower_bound:
  assumes inv: "dist_inv g s {} b st" and nn: "nonneg g"
  shows "is_path g s p x \<Longrightarrow> path_cost p = Fin c \<Longrightarrow>
     (\<exists>dx. dist_map st x = Some (Fin dx) \<and> (Fin dx, x) \<notin> set (heap st) \<and> dx \<le> c)
     \<or> (\<exists>d y. (Fin d, y) \<in> set (heap st) \<and> d \<le> c)"
proof (induction p arbitrary: x c rule: rev_induct)
  case Nil
  then have x: "x = s" and c: "c = 0" by (simp_all add: path_cost_Nil)
  have "dist_map st s = Some (Fin 0)" using inv unfolding dist_inv_def by blast
  then show ?case unfolding x c by (cases "(Fin 0, s) \<in> set (heap st)") auto
next
  case (snoc e p)
  obtain v w d where e: "e = (v, w, d)" by (cases e) auto
  obtain u where u: "is_path g s p u" "(v, w, d) \<in> set (graph_get g u)" "v = x"
    using snoc.prems(1) unfolding is_path_snoc e by auto
  have w0: "nonneg_weight w" using nn u(2) by (auto simp: nonneg_def)
  have pc: "fadd (path_cost p) w = Fin c" using snoc.prems(2) by (simp add: path_cost_snoc e)
  obtain cp where cp: "path_cost p = Fin cp" using fadd_Fin_left[OF pc] by blast
  have cpd: "0 \<le> cp" "is_double cp" using path_cost_cases[OF nn u(1)] cp by auto
  have c': "fadd (Fin cp) w = Fin c" using pc cp by simp
  have cpc: "cp \<le> c" using fadd_grows(1)[OF cpd w0 c'] .
  from snoc.IH[OF u(1) cp] show ?case
  proof
    assume "\<exists>dx. dist_map st u = Some (Fin dx) \<and> (Fin dx, u) \<notin> set (heap st) \<and> dx \<le> cp"
    then obtain du where du: "dist_map st u = Some (Fin du)" "(Fin du, u) \<notin> set (heap st)" "du \<le> cp"
      by blast
    have du0: "0 \<le> du" using inv du(1) unfolding dist_inv_def by blast
    obtain c2 where c2: "fadd (Fin du) w = Fin c2" "c2 \<le> c"
      using fadd_mono[OF du0 du(3) w0 c'] by blast
    obtain dv where dv: "dist_map st v = Some (Fin dv)" "dv \<le> c2"
      using inv du(1,2) u(2) c2(1) unfolding dist_inv_def by blast
    have le: "dv \<le> c" using dv(2) c2(2) by simp
    show ?thesis
    proof (cases "(Fin dv, v) \<in> set (heap st)")
      case True then show ?thesis using le by blast
    next
      case False then show ?thesis using le dv u(3) by blast
    qed
  next
    assume "\<exists>d y. (Fin d, y) \<in> set (heap st) \<and> d \<le> cp"
    then obtain d' y where "(Fin d', y) \<in> set (heap st)" "d' \<le> cp" by blast
    then have "(Fin d', y) \<in> set (heap st) \<and> d' \<le> c" using cpc by simp
    then show ?thesis by blast
  qed
qed

lemma fle_Fin: "fle (Fin a) (Fin b) \<longleftrightarrow> a \<le> b"
  by (auto simp: fle_def)

lemma fle_PInf: "fle (Fin a) PInf"
  by (simp add: fle_def)

text \<open>
  On a finite graph with non-negative weights the main loop returns: each iteration
  either settles a node or shortens the heap.
\<close>

lemma dijkstra_loop_total:
  assumes fin: "finite (nodes g s)" and nn: "nonneg g"
  shows "dist_inv g s {} b st \<Longrightarrow> path_inv g s st \<Longrightarrow> prev_inv s st \<Longrightarrow>
     \<exists>st'. dijkstra_loop t st = Some st' \<and> post g s t st'"
proof -
  define R where "R = inv_image (less_than <*lex*> less_than)
      (\<lambda>st. (card (nodes g s - {x. settled st x}), length (heap st)))"
  have wfR: "wf R" unfolding R_def by (intro wf_inv_image wf_lex_prod wf_less_than)
  have bound: "\<forall>d p. dist_map st' t = Some d \<longrightarrow> is_path g s p t \<longrightarrow> fle d (path_cost p)"
    if lb: "\<And>p c. is_path g s p t \<Longrightarrow> path_cost p = Fin c \<Longrightarrow>
          \<exists>dt. dist_map st' t = Some (Fin dt) \<and> dt \<le> c"
      and dfin: "\<And>y. dist_map st' t = Some y \<Longrightarrow> \<exists>dt. y = Fin dt"
    for st'
  proof (intro allI impI)
    fix d p assume a: "dist_map st' t = Some d" "is_path g s p t"
    obtain dt where dt: "d = Fin dt" using dfin[OF a(1)] by blast
    from path_cost_cases[OF nn a(2)] show "fle d (path_cost p)"
    proof
      assume "path_cost p = PInf"
      then show ?thesis by (simp add: dt fle_PInf)
    next
      assume "\<exists>c. path_cost p = Fin c \<and> 0 \<le> c \<and> is_double c"
      then obtain c where c: "path_cost p = Fin c" by blast
      from lb[OF a(2) c] have "dt \<le> c" using a(1) dt by auto
      then show ?thesis by (simp add: dt c fle_Fin)
    qed
  qed
  show "dist_inv g s {} b st \<Longrightarrow> path_inv g s st \<Longrightarrow> prev_inv s st \<Longrightarrow>
     \<exists>st'. dijkstra_loop t st = Some st' \<and> post g s t st'"
    using wfR
  proof (induction st arbitrary: b rule: wf_induct_rule)
    case (less st)
    note di = less.prems(1) and pi = less.prems(2) and pr = less.prems(3)
    have g: "graph st = g" using di unfolding dist_inv_def by blast
    have dfin: "\<And>v y. dist_map st v = Some y \<Longrightarrow> \<exists>d. y = Fin d"
      using di unfolding dist_inv_def by blast
    show ?case
    proof (cases "heap st = []")
      case True
      have "\<And>p c. is_path g s p t \<Longrightarrow> path_cost p = Fin c \<Longrightarrow>
          \<exists>dt. dist_map st t = Some (Fin dt) \<and> dt \<le> c"
        using path_lower_bound[OF di nn] True by fastforce
      then have lb: "\<forall>d p. dist_map st t = Some d \<longrightarrow> is_path g s p t \<longrightarrow> fle d (path_cost p)"
        using dfin by (intro bound) auto
      have "dijkstra_loop t st = Some st" using True by (simp add: dijkstra_loop.simps)
      then show ?thesis using g pi pr lb by (simp add: post_def)
    next
      case False
      obtain x u rest where pop: "heappop (heap st) = ((x, u), rest)"
        by (metis prod.exhaust)
      obtain cd where x: "x = Fin cd" and m: "(Fin cd, u) \<in> set (heap st)"
        and r: "rest = remove1 (Fin cd, u) (heap st)"
        and least: "\<forall>d v. (Fin d, v) \<in> set (heap st) \<longrightarrow> cd \<le> d"
        using dist_inv_pop[OF di False pop] by blast
      let ?st1 = "st\<lparr>heap := rest\<rparr>"
      have sub: "set rest \<subseteq> set (heap st)"
        using r set_remove1_subset[of "(Fin cd, u)" "heap st"] by simp
      have "0 < length (heap st)" using False by simp
      then have len: "length rest < length (heap st)"
        using r m by (simp add: length_remove1)
      have pi1: "path_inv g s ?st1" using pi by (rule path_inv_heap)
      have pr1: "prev_inv s ?st1" using pr sub by (rule prev_inv_heap)
      have keep1: "\<And>x. settled st x \<Longrightarrow> settled ?st1 x"
        using sub by (auto simp: settled_def)
      show ?thesis
      proof (cases "outdated (Fin cd) (dist_map st) u")
        case True
        have di1: "dist_inv g s {} b ?st1"
          by (rule dist_inv_pop_outdated[OF di m r True])
        have "card (nodes g s - {x. settled ?st1 x}) \<le> card (nodes g s - {x. settled st x})"
          using keep1 fin by (intro card_mono) auto
        then have "(?st1, st) \<in> R" using len unfolding R_def by auto
        from less.IH[OF this di1 pi1 pr1]
        obtain st' where "dijkstra_loop t ?st1 = Some st'" "post g s t st'" by blast
        moreover have "dijkstra_loop t st = dijkstra_loop t ?st1"
          using False pop True x by (subst dijkstra_loop.simps) simp
        ultimately show ?thesis by simp
      next
        case nout: False
        note cur = dist_inv_pop_current[OF di m r least nout]
        show ?thesis
        proof (cases "u = t")
          case True
          have "dijkstra_loop t st = Some ?st1"
            using False pop nout True x by (subst dijkstra_loop.simps) simp
          moreover have "\<forall>d p. dist_map ?st1 t = Some d \<longrightarrow> is_path g s p t \<longrightarrow> fle d (path_cost p)"
          proof (rule bound)
            fix p c assume a: "is_path g s p t" "path_cost p = Fin c"
            have dt: "dist_map ?st1 t = Some (Fin cd)" using cur(1) True by simp
            from path_lower_bound[OF di nn a] have "cd \<le> c"
            proof
              assume "\<exists>dx. dist_map st t = Some (Fin dx) \<and> (Fin dx, t) \<notin> set (heap st) \<and> dx \<le> c"
              then show ?thesis using cur(1) True by auto
            next
              assume "\<exists>d y. (Fin d, y) \<in> set (heap st) \<and> d \<le> c"
              then obtain d' y where "(Fin d', y) \<in> set (heap st)" "d' \<le> c" by blast
              then show ?thesis using least by fastforce
            qed
            then show "\<exists>dt. dist_map ?st1 t = Some (Fin dt) \<and> dt \<le> c" using dt by blast
          next
            fix y assume "dist_map ?st1 t = Some y"
            then show "\<exists>dt. y = Fin dt" using dfin[of t y] by simp
          qed
          ultimately show ?thesis using g pi1 pr1 by (simp add: post_def)
        next
          case ut: False
          let ?st2 = "relax (Fin cd) u (graph_get g u) ?st1"
          have du1: "dist_map ?st1 u = Some (Fin cd)" using cur(1) by simp
          have nh1: "(Fin cd, u) \<notin> set (heap ?st1)" using cur(2) by simp
          have rel: "dist_inv g s ({u} \<times> set (graph_get g u) - {u} \<times> set (graph_get g u)) cd ?st2 \<and>
             path_inv g s ?st2 \<and> prev_inv s ?st2 \<and>
             dist_map ?st2 u = Some (Fin cd) \<and> (Fin cd, u) \<notin> set (heap ?st2) \<and>
             (\<forall>x. settled ?st1 x \<longrightarrow> settled ?st2 x)"
            by (rule relax_inv[OF nn subset_refl cur(3) pi1 pr1 du1 nh1])
          then have di2: "dist_inv g s {} cd ?st2" by simp
          have su2: "settled ?st2 u" using rel by (auto simp: settled_def)
          have keep2: "\<And>x. settled st x \<Longrightarrow> settled ?st2 x" using rel keep1 by blast
          have un: "u \<in> nodes g s" using di cur(1) unfolding dist_inv_def by blast
          have "nodes g s - {x. settled ?st2 x} \<subset> nodes g s - {x. settled st x}"
            using keep2 su2 cur(5) un by blast
          then have "card (nodes g s - {x. settled ?st2 x}) < card (nodes g s - {x. settled st x})"
            using fin by (intro psubset_card_mono) auto
          then have "(?st2, st) \<in> R" unfolding R_def by auto
          from less.IH[OF this di2] rel
          obtain st' where "dijkstra_loop t ?st2 = Some st'" "post g s t st'" by blast
          moreover have "dijkstra_loop t st = dijkstra_loop t ?st2"
            using False pop nout ut g x by (subst dijkstra_loop.simps) simp
          ultimately show ?thesis by simp
        qed
      qed
    qed
  qed
qed

lemma dijkstra_run_post:
  assumes "finite (dom g)" and "nonneg g"
  shows "\<exists>st. dijkstra_run g s t = Some st \<and> post g s t st"
  unfolding dijkstra_run_def
  using finite_nodes[OF assms(1)] assms(2) dist_inv_init path_inv_init prev_inv_init
  by (rule dijkstra_loop_total)

section \<open>The path reconstructor on the engine's predecessor map\<close>

lemma reconstruct_loop_total:
  assumes p1: "prev s = None"
  shows "reaches prev s c \<Longrightarrow> \<exists>r. reconstruct_loop prev source c path = Some r"
proof (induction arbitrary: path rule: reaches.induct)
  case reaches_source
  show ?case using p1 by (subst reconstruct_loop.simps) simp
next
  case (reaches_step v u)
  show ?case
  proof (cases "v = source")
    case True
    then show ?thesis by (subst reconstruct_loop.simps) simp
  next
    case False
    have "reconstruct_loop prev source v path = reconstruct_loop prev source u (path @ [u])"
      using False reaches_step.hyps(1) by (subst reconstruct_loop.simps) simp
    then show ?thesis using reaches_step.IH by simp
  qed
qed

lemma reconstruct_path_total:
  assumes "prev_inv s st"
  shows "\<exists>r. reconstruct_path (prev_map st) source target = Some r"
proof -
  have p1: "prev_map st s = None"
    and p3: "\<And>x. dist_map st x \<noteq> None \<Longrightarrow> reaches (prev_map st) s x"
    and p4: "dom (prev_map st) \<subseteq> dom (dist_map st)"
    using assms unfolding prev_inv_def by blast+
  show ?thesis
  proof (cases "source = target \<or> prev_map st target = None")
    case True
    then show ?thesis by (auto simp: reconstruct_path_def)
  next
    case False
    then have "dist_map st target \<noteq> None" using p4 by blast
    then have "reaches (prev_map st) s target" by (rule p3)
    from reconstruct_loop_total[OF p1 this] show ?thesis
      using False by (simp add: reconstruct_path_def)
  qed
qed

lemma reaches_no_cycle:
  assumes p1: "prev s = None"
  shows "reaches prev s x \<Longrightarrow> (x, x) \<notin> {(v, u). prev v = Some u}\<^sup>+"
proof (induction rule: reaches.induct)
  case reaches_source
  show ?case
  proof
    assume "(s, s) \<in> {(v, u). prev v = Some u}\<^sup>+"
    then obtain z where "(s, z) \<in> {(v, u). prev v = Some u}" by (blast dest: tranclD)
    then show False using p1 by simp
  qed
next
  case (reaches_step v u)
  show ?case
  proof
    assume "(v, v) \<in> {(v, u). prev v = Some u}\<^sup>+"
    then obtain z where z: "(v, z) \<in> {(v, u). prev v = Some u}" "(z, v) \<in> {(v, u). prev v = Some u}\<^sup>*"
      by (blast dest: tranclD)
    have "prev v = Some z" using z(1) by simp
    with reaches_step.hyps(1) have "z = u" by simp
    then have "(u, v) \<in> {(v, u). prev v = Some u}\<^sup>*" using z(2) by simp
    moreover have "(v, u) \<in> {(v, u). prev v = Some u}" using reaches_step.hyps(1) by simp
    ultimately have "(u, u) \<in> {(v, u). prev v = Some u}\<^sup>+" by (rule rtrancl_into_trancl1)
    then show False using reaches_step.IH by simp
  qed
qed

lemma prev_inv_no_cycle:
  assumes "prev_inv s st"
  shows "(x, x) \<notin> {(v, u). prev_map st v = Some u}\<^sup>+"
proof
  assume c: "(x, x) \<in> {(v, u). prev_map st v = Some u}\<^sup>+"
  have p1: "prev_map st s = None"
    and p3: "\<And>x. dist_map st x \<noteq> None \<Longrightarrow> reaches (prev_map st) s x"
    and p4: "dom (prev_map st) \<subseteq> dom (dist_map st)"
    using assms unfolding prev_inv_def by blast+
  from c obtain z where "(x, z) \<in> {(v, u). prev_map st v = Some u}" by (blast dest: tranclD)
  then have "dist_map st x \<noteq> None" using p4 by auto
  then have "reaches (prev_map st) s x" by (rule p3)
  from reaches_no_cycle[OF p1 this] c show False by simp
qed

section \<open>Results about the engine\<close>

text \<open>
  C1, as the code has it. For a graph loaded from a roads source whose weights are all
  non-negative (none is NaN), and every source and target: the engine returns, and if its
  distance map has an entry for the target, then some path from the source to the target
  has exactly that cost and no path from the source to the target costs less, where the
  cost of a path is accumulated from the source in double precision, each addition
  rounded as the engine rounds it.
\<close>

theorem dijkstra_shortest:
  assumes "load_graph int_of float_of (Some lines) = Inr g" and "nonneg g"
  shows "\<exists>dist prev. dijkstra g source target = Some (dist, prev) \<and>
     (\<forall>d. dist target = Some d \<longrightarrow>
        (\<exists>p. is_path g source p target \<and> path_cost p = d) \<and>
        (\<forall>p. is_path g source p target \<longrightarrow> fle d (path_cost p)))"
proof -
  obtain st where r: "dijkstra_run g source target = Some st" and p: "post g source target st"
    using dijkstra_run_post[OF load_graph_finite[OF assms(1)] assms(2)] by blast
  have "dijkstra g source target = Some (dist_map st, prev_map st)"
    using r by (simp add: dijkstra_def)
  moreover have "\<forall>d. dist_map st target = Some d \<longrightarrow>
        (\<exists>p. is_path g source p target \<and> path_cost p = d) \<and>
        (\<forall>p. is_path g source p target \<longrightarrow> fle d (path_cost p))"
    using p unfolding post_def path_inv_def by blast
  ultimately show ?thesis by blast
qed

theorem dijkstra_shortest_witness:
  "\<exists>g dist prev.
     load_graph decimal_int decimal_float
       (Some [''1,2,2,a'', ''2,3,3,b'', ''1,3,7,direct'']) = Inr g
     \<and> nonneg g
     \<and> dijkstra g 1 3 = Some (dist, prev) \<and> dist 3 = Some (Fin 5)
     \<and> (\<exists>p. is_path g 1 p 3 \<and> path_cost p = Fin 5)
     \<and> is_path g 1 [(3, Fin 7, ''direct'')] 3 \<and> fle (Fin 5) (path_cost [(3, Fin 7, ''direct'')])"
proof -
  let ?L = "[''1,2,2,a'', ''2,3,3,b'', ''1,3,7,direct'']"
  have recs: "road_records decimal_int decimal_float ?L =
      [(1, 2, Fin 2, ''a''), (2, 3, Fin 3, ''b''), (1, 3, Fin 7, ''direct'')]"
    by (simp add: parse_eval)
  obtain g where ld: "load_graph decimal_int decimal_float (Some ?L) = Inr g"
    by (simp add: load_graph_def parse_eval)
  have "load_graph_loop decimal_int decimal_float ?L Map.empty = Inr g"
    using ld by (simp only: load_graph_def option.case)
  from load_graph_loop_entries[OF this]
  have e: "\<And>u. graph_get g u =
      entries_of [(1, 2, Fin 2, ''a''), (2, 3, Fin 3, ''b''), (1, 3, Fin 7, ''direct'')] u"
    unfolding recs by (simp add: graph_get_def)
  have nn: "nonneg g"
    unfolding nonneg_def e by (auto simp: nonneg_weight_def split: if_splits)
  have run: "dijkstra g 1 3 = Some ([1 \<mapsto> Fin 0, 2 \<mapsto> Fin 2, 3 \<mapsto> Fin 5], [2 \<mapsto> 1, 3 \<mapsto> 2])"
    by (simp add: run_eval e)
  from dijkstra_shortest[OF ld nn, of 1 3] obtain dist prev
    where d: "dijkstra g 1 3 = Some (dist, prev)"
      and sp: "\<forall>d. dist 3 = Some d \<longrightarrow>
        (\<exists>p. is_path g 1 p 3 \<and> path_cost p = d) \<and> (\<forall>p. is_path g 1 p 3 \<longrightarrow> fle d (path_cost p))"
    by blast
  have dist: "dist = [1 \<mapsto> Fin 0, 2 \<mapsto> Fin 2, 3 \<mapsto> Fin 5]" using d run by simp
  have d3: "dist 3 = Some (Fin 5)" by (simp add: dist)
  have ex: "\<exists>p. is_path g 1 p 3 \<and> path_cost p = Fin 5" using sp d3 by blast
  have ip: "is_path g 1 [(3, Fin 7, ''direct'')] 3" by (simp add: e)
  have le: "fle (Fin 5) (path_cost [(3, Fin 7, ''direct'')])" using sp d3 ip by blast
  show ?thesis using ld nn d d3 ex ip le by blast
qed

text \<open>
  C1, with the cost of a path read as the exact sum of its weights, fails. The roads
  file with the lines \<^verbatim>\<open>1,2,10000000000000000,a\<close> and \<^verbatim>\<open>2,3,1,b\<close> loads, its weights are
  non-negative, and the engine from 1 to 3 returns the entry \<^verbatim>\<open>1e16\<close> for node 3
  (\<^verbatim>\<open>1e16 + 1.0\<close> rounds to \<^verbatim>\<open>1e16\<close>); but no path from 1 to 3 has the exact cost
  \<^verbatim>\<open>1e16\<close>: the cheapest costs \<^verbatim>\<open>1e16 + 1\<close>.
\<close>

lemma long_road_paths:
  "is_path long_road_graph u p 3 \<Longrightarrow> u \<in> {1, 2, 3} \<Longrightarrow>
     (if u = 1 then 10000000000000001 else if u = 2 then 1 else 0) \<le> exact_cost p"
proof (induction p arbitrary: u)
  case Nil
  then show ?case by (simp add: exact_cost_def)
next
  case (Cons e es)
  have e: "e \<in> set (graph_get long_road_graph u)" and rest: "is_path long_road_graph (fst e) es 3"
    using Cons.prems(1) by simp_all
  have c: "exact_cost (e # es) = real_of (fst (snd e)) + exact_cost es"
    by (simp add: exact_cost_def)
  from Cons.prems(2) consider "u = 1" | "u = 2" | "u = 3" by auto
  then show ?case
  proof cases
    case 1
    then have "e = (2, Fin 10000000000000000, ''a'')"
      using e by (simp add: long_road_graph_def graph_get_def)
    then show ?thesis using Cons.IH[of 2] rest 1 c by (simp add: real_of_def)
  next
    case 2
    then have "e = (1, Fin 10000000000000000, ''a'') \<or> e = (3, Fin 1, ''b'')"
      using e by (simp add: long_road_graph_def graph_get_def)
    then show ?thesis using Cons.IH[of 1] Cons.IH[of 3] rest 2 c by (auto simp: real_of_def)
  next
    case 3
    then have "e = (2, Fin 1, ''b'')"
      using e by (simp add: long_road_graph_def graph_get_def)
    then show ?thesis using Cons.IH[of 2] rest 3 c by (simp add: real_of_def)
  qed
qed

theorem dijkstra_exact_sum_counterexample:
  "load_graph decimal_int decimal_float (Some [''1,2,10000000000000000,a'', ''2,3,1,b''])
     = Inr long_road_graph
   \<and> nonneg long_road_graph
   \<and> dijkstra long_road_graph 1 3
       = Some ([1 \<mapsto> Fin 0, 2 \<mapsto> Fin 10000000000000000, 3 \<mapsto> Fin 10000000000000000],
               [2 \<mapsto> 1, 3 \<mapsto> 2])
   \<and> \<not> (\<exists>p. is_path long_road_graph 1 p 3 \<and> exact_cost p = 10000000000000000)
   \<and> \<not> (\<exists>p. is_path long_road_graph 1 p 3 \<and> exact_cost p < 10000000000000001)
   \<and> is_path long_road_graph 1 [(2, Fin 10000000000000000, ''a''), (3, Fin 1, ''b'')] 3
   \<and> exact_cost [(2, Fin 10000000000000000, ''a''), (3, Fin 1, ''b'')] = 10000000000000001"
proof -
  have ld: "load_graph decimal_int decimal_float (Some [''1,2,10000000000000000,a'', ''2,3,1,b''])
     = Inr long_road_graph"
    by (simp add: load_graph_def parse_eval setdefault_append_def graph_get_def
        long_road_graph_def fun_eq_iff)
  have nn: "nonneg long_road_graph"
    unfolding nonneg_def long_road_graph_def graph_get_def
    by (auto simp: nonneg_weight_def split: if_splits)
  have run: "dijkstra long_road_graph 1 3
       = Some ([1 \<mapsto> Fin 0, 2 \<mapsto> Fin 10000000000000000, 3 \<mapsto> Fin 10000000000000000],
               [2 \<mapsto> 1, 3 \<mapsto> 2])"
    by (simp add: run_eval graph_get_def long_road_graph_def round_double_2e16)
  have lb: "\<And>p. is_path long_road_graph 1 p 3 \<Longrightarrow> 10000000000000001 \<le> exact_cost p"
    using long_road_paths[of 1] by simp
  have n1: "\<not> (\<exists>p. is_path long_road_graph 1 p 3 \<and> exact_cost p = 10000000000000000)"
    using lb by fastforce
  have n2: "\<not> (\<exists>p. is_path long_road_graph 1 p 3 \<and> exact_cost p < 10000000000000001)"
    using lb by fastforce
  have ip: "is_path long_road_graph 1 [(2, Fin 10000000000000000, ''a''), (3, Fin 1, ''b'')] 3"
    by (simp add: graph_get_def long_road_graph_def)
  have ec: "exact_cost [(2, Fin 10000000000000000, ''a''), (3, Fin 1, ''b'')] = 10000000000000001"
    by (simp add: exact_cost_def real_of_def)
  show ?thesis using ld nn run n1 n2 ip ec by (intro conjI)
qed

text \<open>
  C4. On a road graph (finite, with non-negative distances), when no path leads from the
  source to the target, the engine returns, neither the distance map nor the predecessor
  map has an entry for the target, and the path reconstructor returns \<^verbatim>\<open>None\<close> on that
  predecessor map.
\<close>

theorem dijkstra_unreachable:
  assumes "finite (dom g)" and "nonneg g" and "\<not> (\<exists>p. is_path g source p target)"
  shows "\<exists>dist prev. dijkstra g source target = Some (dist, prev) \<and>
     dist target = None \<and> prev target = None \<and>
     reconstruct_path prev source target = Some None"
proof -
  obtain st where r: "dijkstra_run g source target = Some st" and p: "post g source target st"
    using dijkstra_run_post[OF assms(1,2)] by blast
  have d: "dijkstra g source target = Some (dist_map st, prev_map st)"
    using r by (simp add: dijkstra_def)
  have pi: "path_inv g source st" and pr: "prev_inv source st" using p by (auto simp: post_def)
  have dn: "dist_map st target = None"
  proof (rule ccontr)
    assume "dist_map st target \<noteq> None"
    then obtain d where "dist_map st target = Some d" by auto
    then have "\<exists>p. is_path g source p target" using pi unfolding path_inv_def by blast
    then show False using assms(3) by simp
  qed
  have "dom (prev_map st) \<subseteq> dom (dist_map st)" using pr unfolding prev_inv_def by blast
  then have pn: "prev_map st target = None" using dn by blast
  have "source \<noteq> target"
  proof
    assume "source = target"
    then have "is_path g source [] target" by simp
    then show False using assms(3) by blast
  qed
  then have "reconstruct_path (prev_map st) source target = Some None"
    using pn by (simp add: reconstruct_path_def)
  then show ?thesis using d dn pn by blast
qed

theorem dijkstra_unreachable_witness:
  "finite (dom islands_graph) \<and> nonneg islands_graph
   \<and> \<not> (\<exists>p. is_path islands_graph 1 p 3)
   \<and> (\<exists>dist prev.
        dijkstra islands_graph 1 3 = Some (dist, prev)
        \<and> dist 3 = None \<and> prev 3 = None \<and> reconstruct_path prev 1 3 = Some None)"
proof -
  have f: "finite (dom islands_graph)" by (simp add: islands_graph_def)
  have n: "nonneg islands_graph"
    by (auto simp: nonneg_def nonneg_weight_def graph_get_def islands_graph_def split: if_splits)
  have closed: "is_path islands_graph u p v \<Longrightarrow> u \<in> {1, 2} \<Longrightarrow> v \<in> {1, 2}" for u p v
  proof (induction p arbitrary: u)
    case Nil then show ?case by simp
  next
    case (Cons e es)
    have "fst e \<in> {1, 2}"
      using Cons.prems by (auto simp: graph_get_def islands_graph_def split: if_splits)
    then show ?case using Cons.IH[of "fst e"] Cons.prems(1) by simp
  qed
  have u: "\<not> (\<exists>p. is_path islands_graph 1 p 3)" using closed[of 1 _ 3] by auto
  show ?thesis using f n u dijkstra_unreachable[OF f n u] by blast
qed

text \<open>
  C10. On a road graph (finite, with non-negative distances) the engine returns a
  predecessor map on which the backward walk of the path reconstructor ends for every
  source and target, and whose links form no cycle.
\<close>

theorem reconstruct_path_terminates:
  assumes "finite (dom g)" and "nonneg g"
  shows "\<exists>dist prev. dijkstra g s t = Some (dist, prev) \<and>
     (\<forall>source target. \<exists>r. reconstruct_path prev source target = Some r) \<and>
     (\<forall>x. (x, x) \<notin> {(v, u). prev v = Some u}\<^sup>+)"
proof -
  obtain st where r: "dijkstra_run g s t = Some st" and p: "post g s t st"
    using dijkstra_run_post[OF assms] by blast
  have d: "dijkstra g s t = Some (dist_map st, prev_map st)"
    using r by (simp add: dijkstra_def)
  have pr: "prev_inv s st" using p by (auto simp: post_def)
  have a: "\<forall>source target. \<exists>r. reconstruct_path (prev_map st) source target = Some r"
    using reconstruct_path_total[OF pr] by blast
  have b: "\<forall>x. (x, x) \<notin> {(v, u). prev_map st v = Some u}\<^sup>+"
    using prev_inv_no_cycle[OF pr] by blast
  show ?thesis using d a b by blast
qed

theorem reconstruct_path_terminates_witness:
  "finite (dom triangle_graph) \<and> nonneg triangle_graph
   \<and> (\<exists>dist prev.
        dijkstra triangle_graph 1 3 = Some (dist, prev)
        \<and> (\<exists>r. reconstruct_path prev 1 3 = Some r)
        \<and> (\<exists>r. reconstruct_path prev 3 2 = Some r)
        \<and> (2, 2) \<notin> {(v, u). prev v = Some u}\<^sup>+)"
proof -
  have f: "finite (dom triangle_graph)" by (simp add: triangle_graph_def)
  have n: "nonneg triangle_graph"
    by (auto simp: nonneg_def nonneg_weight_def graph_get_def triangle_graph_def split: if_splits)
  from reconstruct_path_terminates[OF f n, of 1 3] obtain dist prev
    where d: "dijkstra triangle_graph 1 3 = Some (dist, prev)"
      and t: "\<forall>source target. \<exists>r. reconstruct_path prev source target = Some r"
      and c: "\<forall>x. (x, x) \<notin> {(v, u). prev v = Some u}\<^sup>+"
    by blast
  have "\<exists>r. reconstruct_path prev 1 3 = Some r" using t by blast
  moreover have "\<exists>r. reconstruct_path prev 3 2 = Some r" using t by blast
  moreover have "(2, 2) \<notin> {(v, u). prev v = Some u}\<^sup>+" using c by blast
  ultimately show ?thesis using f n d by blast
qed

end
